theory Spec2Isabelle
  imports Main "HOL-Library.Word" "HOL-Library.List_Lexorder"
begin

section \<open>Bytes and errors\<close>

text \<open>
  Python 2 byte strings are lists of 8-bit words.  Their comparison is the
  lexicographic order of \<open>HOL-Library.List_Lexorder\<close>, in which a proper
  prefix is smaller than its extensions, as for Python's \<open>str\<close>.
  Every \<open>raise\<close> and every failing \<open>assert\<close> of the source is a value of
  the type \<open>error\<close>.
\<close>

type_synonym byte = "8 word"
type_synonym bytes = "byte list"

datatype error =
    AssertionError
  | NameError string
  | ValueError
  | TypeError
  | IndexError
  | AttributeError
  | DecodeError
  | RecursionError

section \<open>\<open>next_greater\<close> (centidb.py, lines 93--110)\<close>

text \<open>\<open>s.rstrip('\xff')\<close>: drop the trailing 0xFF bytes.\<close>

definition rstrip_ff :: "bytes \<Rightarrow> bytes" where
  "rstrip_ff s = rev (dropWhile (\<lambda>b. b = 0xFF) (rev s))"

text \<open>
  \<open>assert s\<close> fails on the empty string.  \<open>s2 and (...)\<close> returns \<open>s2\<close>
  itself (the empty string) when \<open>s2\<close> is empty.  \<open>chr\<close> raises
  \<open>ValueError\<close> on 256.
\<close>

definition next_greater :: "bytes \<Rightarrow> error + bytes" where
  "next_greater s =
     (if s = [] then Inl AssertionError
      else let s2 = rstrip_ff s in
        if s2 = [] then Inr s2
        else if unat (last s2) + 1 > 255 then Inl ValueError
        else Inr (butlast s2 @ [last s2 + 1]))"

section \<open>The key codec (keycoder, an external module)\<close>

text \<open>
  A structured key is a tuple of primitives.  The primitives are an abstract
  linearly ordered type \<open>'p\<close>; a tuple is a list, ordered lexicographically as
  Python orders tuples.

  Modelled from the spec: the module \<open>keycoder\<close> (\<open>packs\<close>, \<open>unpacks\<close>,
  \<open>pack_int\<close>, \<open>unpack_int\<close>) is not part of the sources.  It is a record of
  functions: \<open>enc_keys\<close> encodes a list of tuples, \<open>dec_keys\<close> decodes it,
  \<open>pack_int\<close> writes a varint and \<open>read_int s pos\<close> reads one at position
  \<open>pos\<close>, returning the value and the position after it (\<open>None\<close> when the
  input is malformed).  \<open>prim_str\<close> and \<open>prim_int\<close> are the primitives
  that hold a Python string and a Python integer, and \<open>key_enc\<close>, \<open>key_dec\<close>
  are \<open>KEY_ENCODER\<close> on the pairs \<open>(name, n)\<close> kept by the metadata
  collections.  The record also carries the two functions of Python's \<open>zlib\<close>
  that \<open>ZLIB_PACKER\<close> is made of.
\<close>

type_synonym 'p key = "'p list"

record 'p codec =
  enc_keys :: "'p key list \<Rightarrow> bytes"
  dec_keys :: "bytes \<Rightarrow> 'p key list"
  pack_int :: "nat \<Rightarrow> bytes"
  read_int :: "bytes \<Rightarrow> nat \<Rightarrow> (nat \<times> nat) option"
  prim_str :: "string \<Rightarrow> 'p"
  prim_int :: "int \<Rightarrow> 'p"
  key_enc :: "string \<times> int \<Rightarrow> bytes"
  key_dec :: "bytes \<Rightarrow> string \<times> int"
  zlib_compress :: "bytes \<Rightarrow> bytes"
  zlib_decompress :: "bytes \<Rightarrow> bytes"

text \<open>\<open>keycoder.packs(prefix, x)\<close>: the prefix followed by the encoded tuples.\<close>

definition packs :: "'p codec \<Rightarrow> bytes \<Rightarrow> 'p key list \<Rightarrow> bytes" where
  "packs c prefix ks = prefix @ enc_keys c ks"

text \<open>
  \<open>keycoder.unpacks(prefix, s)\<close>: the decoded tuples, or nothing when \<open>s\<close> does
  not start with the prefix.  The callers test the result with \<open>not keys\<close>, so
  \<open>None\<close> and the empty list are the same to them.
\<close>

definition unpacks :: "'p codec \<Rightarrow> bytes \<Rightarrow> bytes \<Rightarrow> 'p key list" where
  "unpacks c prefix s =
     (if take (length prefix) s = prefix then dec_keys c (drop (length prefix) s) else [])"

section \<open>\<open>decode_offsets\<close>\<close>

text \<open>
  centidb.py, lines 79--88.  The stream \<open>io\<close> is the string with a read
  position; \<open>pos\<close> is the running sum and \<open>out\<close> the list of offsets.
\<close>

primrec offsets_loop ::
  "'p codec \<Rightarrow> bytes \<Rightarrow> nat \<Rightarrow> nat \<Rightarrow> nat \<Rightarrow> nat list \<Rightarrow> error + (nat list \<times> nat)" where
  "offsets_loop c s 0 tell pos out = Inr (out, tell)"
| "offsets_loop c s (Suc n) tell pos out =
     (case read_int c s tell of
        None \<Rightarrow> Inl DecodeError
      | Some (d, tell') \<Rightarrow> offsets_loop c s n tell' (pos + d) (out @ [pos + d]))"

definition decode_offsets :: "'p codec \<Rightarrow> bytes \<Rightarrow> error + (nat list \<times> nat)" where
  "decode_offsets c s =
     (case read_int c s 0 of
        None \<Rightarrow> Inl DecodeError
      | Some (count, tell) \<Rightarrow> offsets_loop c s count tell 0 [0])"

text \<open>
  iterators.py, lines 27--40: the same array, each element computed from the last
  element of \<open>out\<close>.
\<close>

primrec it_offsets_loop ::
  "'p codec \<Rightarrow> bytes \<Rightarrow> nat \<Rightarrow> nat \<Rightarrow> nat list \<Rightarrow> error + (nat list \<times> nat)" where
  "it_offsets_loop c s 0 pos out = Inr (out, pos)"
| "it_offsets_loop c s (Suc n) pos out =
     (case read_int c s pos of
        None \<Rightarrow> Inl DecodeError
      | Some (i, pos') \<Rightarrow> it_offsets_loop c s n pos' (out @ [last out + i]))"

definition it_decode_offsets :: "'p codec \<Rightarrow> bytes \<Rightarrow> error + (nat list \<times> nat)" where
  "it_decode_offsets c s =
     (case read_int c s 0 of
        None \<Rightarrow> Inl DecodeError
      | Some (count, pos) \<Rightarrow> it_offsets_loop c s count pos [0])"


section \<open>The engine and the store\<close>

text \<open>
  Modelled from the spec: the ordered engines are not part of the sources.  An
  engine is a list of (key, value) pairs kept in ascending key order, with
  \<open>put\<close>, \<open>get\<close>, \<open>delete\<close> and \<open>iter(start, reverse)\<close>: forward
  iteration yields the entries with key \<open>\<ge> start\<close> in ascending order, reverse
  iteration the entries with key \<open>\<le> start\<close> in descending order.  An iterator is
  the list of entries present when it was created.
\<close>

type_synonym kv = "(bytes \<times> bytes) list"

fun kv_put :: "bytes \<Rightarrow> bytes \<Rightarrow> kv \<Rightarrow> kv" where
  "kv_put k v [] = [(k, v)]"
| "kv_put k v ((k', v') # e) =
     (if k < k' then (k, v) # (k', v') # e
      else if k = k' then (k, v) # e
      else (k', v') # kv_put k v e)"

definition kv_delete :: "bytes \<Rightarrow> kv \<Rightarrow> kv" where
  "kv_delete k e = filter (\<lambda>p. fst p \<noteq> k) e"

definition kv_get :: "bytes \<Rightarrow> kv \<Rightarrow> bytes option" where
  "kv_get k e = map_of e k"

definition kv_iter :: "bytes \<Rightarrow> bool \<Rightarrow> kv \<Rightarrow> kv" where
  "kv_iter start reverse e =
     (if reverse then rev (filter (\<lambda>p. fst p \<le> start) e)
      else filter (\<lambda>p. start \<le> fst p) e)"

text \<open>
  \<open>class Encoder\<close>: a name and the two functions.  A value encoder packs the
  values of a collection; a packer (compressor) packs byte strings.
\<close>

record 'a encoder =
  e_name :: string
  e_unpack :: "bytes \<Rightarrow> 'a"
  e_pack :: "'a \<Rightarrow> bytes"

text \<open>\<open>PLAIN_PACKER = Encoder('plain', str, lambda o: o)\<close>.\<close>

definition PLAIN_PACKER :: "bytes encoder" where
  "PLAIN_PACKER = \<lparr>e_name = ''plain'', e_unpack = (\<lambda>b. b), e_pack = (\<lambda>b. b)\<rparr>"

text \<open>\<open>ZLIB_PACKER = Encoder('zlib', zlib.decompress, zlib.compress)\<close>.\<close>

definition ZLIB_PACKER :: "'p codec \<Rightarrow> bytes encoder" where
  "ZLIB_PACKER c = \<lparr>e_name = ''zlib'', e_unpack = zlib_decompress c, e_pack = zlib_compress c\<rparr>"

text \<open>
  The dict \<open>_prefix_encoder\<close> holds packers and value encoders alike.  A packer
  unpacks to a byte string.  The value encoders \<open>KEY_ENCODER\<close> and
  \<open>PICKLE_ENCODER\<close> unpack to a tuple or to an arbitrary object; they are
  entered by name.
\<close>

datatype registered = Packer "bytes encoder" | Value_encoder string

text \<open>
  A write goes to the store's engine or to the transaction handle the caller
  passed (\<open>txn or self.engine\<close>).  The transaction handle is opaque in the source;
  here it is a second key-value list.  The journal records every write in the
  order it was issued.
\<close>

datatype handle = Engine | Txn

datatype op = Put handle bytes bytes | Delete handle bytes

record store =
  s_prefix :: bytes
  engine :: kv
  txn_kv :: kv
  journal :: "op list"
  encoder_prefix :: "string \<rightharpoonup> bytes"
  prefix_encoder :: "bytes \<rightharpoonup> registered"

text \<open>A computation returns a value or raises, and leaves a store behind.\<close>

type_synonym 'a res = "(error + 'a) \<times> store"

definition bind :: "(store \<Rightarrow> 'a res) \<Rightarrow> ('a \<Rightarrow> store \<Rightarrow> 'b res) \<Rightarrow> store \<Rightarrow> 'b res" where
  "bind m f st = (case m st of (Inl e, st') \<Rightarrow> (Inl e, st') | (Inr a, st') \<Rightarrow> f a st')"

definition txn_or_engine :: "unit option \<Rightarrow> handle" where
  "txn_or_engine txn = (case txn of None \<Rightarrow> Engine | Some _ \<Rightarrow> Txn)"

definition h_kv :: "handle \<Rightarrow> store \<Rightarrow> kv" where
  "h_kv h st = (case h of Engine \<Rightarrow> engine st | Txn \<Rightarrow> txn_kv st)"

definition h_put :: "handle \<Rightarrow> bytes \<Rightarrow> bytes \<Rightarrow> store \<Rightarrow> store" where
  "h_put h k v st =
     (case h of
        Engine \<Rightarrow> st\<lparr>engine := kv_put k v (engine st), journal := journal st @ [Put h k v]\<rparr>
      | Txn \<Rightarrow> st\<lparr>txn_kv := kv_put k v (txn_kv st), journal := journal st @ [Put h k v]\<rparr>)"

definition h_delete :: "handle \<Rightarrow> bytes \<Rightarrow> store \<Rightarrow> store" where
  "h_delete h k st =
     (case h of
        Engine \<Rightarrow> st\<lparr>engine := kv_delete k (engine st), journal := journal st @ [Delete h k]\<rparr>
      | Txn \<Rightarrow> st\<lparr>txn_kv := kv_delete k (txn_kv st), journal := journal st @ [Delete h k]\<rparr>)"

definition h_iter :: "handle \<Rightarrow> bytes \<Rightarrow> bool \<Rightarrow> store \<Rightarrow> kv" where
  "h_iter h start reverse st = kv_iter start reverse (h_kv h st)"

text \<open>
  \<open>Store.get_encoder\<close> (lines 1055--1063): the registered encoder.  For an
  unregistered prefix the handler of \<open>KeyError\<close> first evaluates
  \<open>self._encoder_coll.itervalues()\<close>; \<open>Collection\<close> has no attribute
  \<open>itervalues\<close>, so \<open>AttributeError\<close> is raised before the
  \<open>raise ValueError\<close> is reached.
\<close>

definition get_encoder :: "store \<Rightarrow> bytes \<Rightarrow> error + registered" where
  "get_encoder st p =
     (case prefix_encoder st p of Some e \<Rightarrow> Inr e | None \<Rightarrow> Inl AttributeError)"

section \<open>Generators\<close>

text \<open>
  A Python generator over a finite source is the list of the items it yields,
  and the exception it raises after them, if any.  A consumer that stops early
  never sees the exception.
\<close>

type_synonym 'a gen = "'a list \<times> error option"

definition gen_next :: "'a gen \<Rightarrow> error + 'a option" where
  "gen_next g =
     (case fst g of
        x # _ \<Rightarrow> Inr (Some x)
      | [] \<Rightarrow> (case snd g of None \<Rightarrow> Inr None | Some e \<Rightarrow> Inl e))"

definition gen_cons :: "'a \<Rightarrow> 'a gen \<Rightarrow> 'a gen" where
  "gen_cons x g = (x # fst g, snd g)"

definition gen_append :: "'a gen \<Rightarrow> 'a gen \<Rightarrow> 'a gen" where
  "gen_append g1 g2 =
     (case snd g1 of None \<Rightarrow> (fst g1 @ fst g2, snd g2) | Some e \<Rightarrow> (fst g1, Some e))"

definition islice :: "nat option \<Rightarrow> 'a gen \<Rightarrow> 'a gen" where
  "islice m g =
     (case m of
        None \<Rightarrow> g
      | Some n \<Rightarrow> if n \<le> length (fst g) then (take n (fst g), None) else g)"

definition dropwhile :: "('a \<Rightarrow> bool) option \<Rightarrow> 'a gen \<Rightarrow> 'a gen" where
  "dropwhile pred g = (case pred of None \<Rightarrow> g | Some p \<Rightarrow> (dropWhile p (fst g), snd g))"

definition takewhile :: "('a \<Rightarrow> bool) option \<Rightarrow> 'a gen \<Rightarrow> 'a gen" where
  "takewhile pred g =
     (case pred of
        None \<Rightarrow> g
      | Some p \<Rightarrow> if \<forall>x \<in> set (fst g). p x then g else (takeWhile p (fst g), None))"

section \<open>Records, indices and collections\<close>

text \<open>
  \<open>class Record\<close>.  \<open>r_coll\<close> names the collection the record belongs to
  (\<open>rec.coll is self\<close> compares it with the collection's name).  The attribute
  \<open>txn_id\<close> is written and never read; it is left out.
\<close>

record ('p, 'v) py_record =
  r_coll :: string
  r_data :: 'v
  r_key :: "'p key option"
  r_batch :: bool
  r_index_keys :: "bytes list option"

text \<open>\<open>Record(coll, data)\<close> with the default arguments.\<close>

definition Record :: "string \<Rightarrow> 'v \<Rightarrow> ('p, 'v) py_record" where
  "Record coll data =
     \<lparr>r_coll = coll, r_data = data, r_key = None, r_batch = False, r_index_keys = None\<rparr>"

text \<open>Python truth of a key: \<open>None\<close> and the empty tuple are false.\<close>

definition truthy :: "'a list option \<Rightarrow> bool" where
  "truthy k = (case k of None \<Rightarrow> False | Some t \<Rightarrow> t \<noteq> [])"

text \<open>
  An index function returns one index tuple or a list of them; a lone primitive
  stands for its 1-tuple, as keycoder treats it.
\<close>

datatype 'p idx_result = One "'p key" | Many "'p key list"

record ('p, 'v) index =
  i_name :: string
  i_prefix :: bytes
  i_func :: "'v \<Rightarrow> 'p idx_result"

text \<open>
  \<open>class Collection\<close> after construction.  \<open>indices\<close> is the dict of indices
  in the order \<open>itervalues()\<close> visits them.  A transactional key function reads
  and writes the store (the default one draws a counter value).
\<close>

record ('p, 'v) collection =
  c_name :: string
  c_prefix :: bytes
  key_func :: "('v \<Rightarrow> 'p key) option"
  txn_key_func :: "(unit option \<Rightarrow> 'v \<Rightarrow> store \<Rightarrow> 'p key res) option"
  derived_keys :: bool
  c_blind :: bool
  c_encoder :: "'v encoder"
  c_packer :: "bytes encoder"
  indices :: "('p, 'v) index list"

text \<open>
  \<open>Collection._decompress\<close> (lines 613--615); \<open>s[0]\<close> fails on the empty
  string.  The callers use the result as a byte string (\<open>buffer(data, offs,
  size)\<close>, \<open>self.encoder.unpack(data)\<close>, \<open>''.join\<close>); the object a value
  encoder unpacks to is not one, and is reported here as \<open>TypeError\<close>.
\<close>

definition decompress :: "store \<Rightarrow> bytes \<Rightarrow> error + bytes" where
  "decompress st s =
     (case s of
        [] \<Rightarrow> Inl IndexError
      | b # rest \<Rightarrow>
          (case get_encoder st [b] of
             Inl e \<Rightarrow> Inl e
           | Inr (Packer enc) \<Rightarrow> Inr (e_unpack enc rest)
           | Inr (Value_encoder n) \<Rightarrow> Inl TypeError))"

text \<open>
  \<open>Collection._logical_iter\<close> (lines 521--553).  \<open>batch_members\<close> is the inner
  loop over the members of a batch record: \<open>keys\<close> is the reversed key list,
  \<open>rit\<close> the indices in the order of iteration.  \<open>buffer(data, offs, size)\<close>
  clamps to the data.
\<close>

fun batch_members ::
  "'p key list \<Rightarrow> nat list \<Rightarrow> bytes \<Rightarrow> nat list \<Rightarrow> (bool \<times> 'p key \<times> bytes) gen" where
  "batch_members keys offsets data [] = ([], None)"
| "batch_members keys offsets data (i # rit) =
     (if i + 1 < length offsets then
        gen_cons (True, keys ! i,
                  take (offsets ! (i + 1) - offsets ! i) (drop (offsets ! i) data))
          (batch_members keys offsets data rit)
      else ([], Some IndexError))"

fun logical_loop ::
  "'p codec \<Rightarrow> bytes \<Rightarrow> store \<Rightarrow> bool \<Rightarrow> kv \<Rightarrow> (bool \<times> 'p key \<times> bytes) gen" where
  "logical_loop c prefix st reverse [] = ([], None)"
| "logical_loop c prefix st reverse ((key, val) # it) =
     (let keys = unpacks c prefix key in
      if keys = [] then ([], None)
      else if length keys = 1 then
        (case decompress st val of
           Inl e \<Rightarrow> ([], Some e)
         | Inr d \<Rightarrow> gen_cons (False, hd keys, d) (logical_loop c prefix st reverse it))
      else
        (case decode_offsets c val of
           Inl e \<Rightarrow> ([], Some e)
         | Inr (offsets, dstart) \<Rightarrow>
            (case decompress st (drop dstart val) of
               Inl e \<Rightarrow> ([], Some e)
             | Inr data \<Rightarrow>
                gen_append
                  (batch_members (rev keys) offsets data
                     (if reverse then rev [0 ..< length keys] else [0 ..< length keys]))
                  (logical_loop c prefix st reverse it))))"

definition logical_iter ::
  "'p codec \<Rightarrow> bytes \<Rightarrow> store \<Rightarrow> kv \<Rightarrow> bool \<Rightarrow> (bool \<times> 'p key \<times> bytes) gen" where
  "logical_iter c prefix st it reverse =
     logical_loop c prefix st reverse
       (case it of
          [] \<Rightarrow> []
        | tup # rest \<Rightarrow> if take (length prefix) (fst tup) = prefix then tup # rest else rest)"

text \<open>
  \<open>Collection._iter\<close> (lines 569--611).  \<open>hi and (...)\<close> is false for the empty
  tuple as for \<open>None\<close>.  \<open>next_greater(self.prefix)\<close> is evaluated in both
  directions and may raise.
\<close>

definition key_pred :: "('p key \<Rightarrow> bool) \<Rightarrow> (bool \<times> 'p key \<times> bytes) \<Rightarrow> bool" where
  "key_pred fn item = fn (fst (snd item))"

definition coll_iter ::
  "'p::linorder codec \<Rightarrow> ('p, 'v) collection \<Rightarrow> store \<Rightarrow> unit option \<Rightarrow> 'p key option \<Rightarrow>
   'p key option \<Rightarrow> 'p key option \<Rightarrow> bool \<Rightarrow> nat option \<Rightarrow> bool \<Rightarrow> nat option \<Rightarrow>
   error + (bool \<times> 'p key \<times> bytes) gen" where
  "coll_iter c coll st txn key lo0 hi0 reverse max' include0 max_phys =
     (let hi1 = (if key \<noteq> None \<and> reverse then key else hi0);
          include1 = (if key \<noteq> None \<and> reverse then True else include0);
          lo = (if key \<noteq> None \<and> \<not> reverse then key else lo0);
          lokey = (case lo of None \<Rightarrow> c_prefix coll | Some l \<Rightarrow> packs c (c_prefix coll) [l])
      in case (case hi1 of
                 None \<Rightarrow> (case next_greater (c_prefix coll) of
                             Inl e \<Rightarrow> Inl e | Inr g \<Rightarrow> Inr (g, False))
               | Some h \<Rightarrow> Inr (packs c (c_prefix coll) [h], include1)) of
           Inl e \<Rightarrow> Inl e
         | Inr (hikey, incl) \<Rightarrow>
            (let startkey = (if reverse then hikey else lokey);
                 startpred =
                   (if reverse \<and> truthy hi1
                    then Some (if incl then (\<lambda>k. the hi1 < k) else (\<lambda>k. the hi1 \<le> k))
                    else None);
                 endpred =
                   (if reverse
                    then (if truthy lo then Some (\<lambda>k. the lo \<ge> k) else None)
                    else (if truthy hi1
                          then Some (if incl then (\<lambda>k. the hi1 \<ge> k) else (\<lambda>k. the hi1 > k))
                          else None));
                 it = h_iter (txn_or_engine txn) startkey reverse st;
                 it' = (case max_phys of None \<Rightarrow> it | Some n \<Rightarrow> take n it)
             in Inr (takewhile (map_option key_pred endpred)
                      (dropwhile (map_option key_pred startpred)
                        (islice max' (logical_iter c (c_prefix coll) st it' reverse))))))"

text \<open>\<open>Collection._index_keys\<close> (lines 617--623).\<close>

definition index_keys :: "'p codec \<Rightarrow> ('p, 'v) collection \<Rightarrow> 'p key \<Rightarrow> 'v \<Rightarrow> bytes list" where
  "index_keys c coll key obj =
     concat (map (\<lambda>idx. map (\<lambda>idx_key. packs c (i_prefix idx) [idx_key, key])
                          (case i_func idx obj of One t \<Rightarrow> [t] | Many ts \<Rightarrow> ts))
                 (indices coll))"

text \<open>
  \<open>Collection.get\<close> (lines 666--686).  The result is the record's value, or a
  \<open>Record\<close> when \<open>rec\<close> is true, or \<open>None\<close>.
\<close>

datatype ('p, 'v) got = Value 'v | Rec "('p, 'v) py_record"

definition coll_get ::
  "'p::linorder codec \<Rightarrow> ('p, 'v) collection \<Rightarrow> 'p key \<Rightarrow> 'v option \<Rightarrow> bool \<Rightarrow> unit option \<Rightarrow>
   store \<Rightarrow> error + ('p, 'v) got option" where
  "coll_get c coll key dflt rec txn st =
     (case coll_iter c coll st txn None (Some key) (Some key) False None True None of
        Inl e \<Rightarrow> Inl e
      | Inr it \<Rightarrow>
         (case gen_next it of
            Inl e \<Rightarrow> Inl e
          | Inr (Some tup) \<Rightarrow>
              (let obj = e_unpack (c_encoder coll) (snd (snd tup)) in
               if rec then
                 Inr (Some (Rec \<lparr>r_coll = c_name coll, r_data = obj, r_key = Some key,
                                  r_batch = fst tup,
                                  r_index_keys = Some (index_keys c coll key obj)\<rparr>))
               else Inr (Some (Value obj)))
          | Inr None \<Rightarrow>
              (case dflt of
                 Some d \<Rightarrow> Inr (Some (if rec then Rec (Record (c_name coll) d) else Value d))
               | None \<Rightarrow> Inr None)))"

text \<open>
  \<open>Collection._split_batch\<close> (lines 818--833): the first assertion holds only
  for a record with a key and \<open>batch\<close> set, and the second one is
  \<open>assert False\<close>, so every call raises.
\<close>

definition split_batch :: "('p, 'v) py_record \<Rightarrow> unit option \<Rightarrow> store \<Rightarrow> unit res" where
  "split_batch rec txn st = (Inl AssertionError, st)"

text \<open>
  \<open>Collection.delete\<close> (lines 946--969).  The argument is a \<open>Record\<close> or a
  key; a key is looked up with \<open>self.get(obj, rec=True)\<close>, without the
  transaction.
\<close>

datatype ('p, 'v) target = ByRecord "('p, 'v) py_record" | ByKey "'p key"

fun delete_all :: "handle \<Rightarrow> bytes list \<Rightarrow> store \<Rightarrow> store" where
  "delete_all h [] st = st"
| "delete_all h (k # ks) st = delete_all h ks (h_delete h k st)"

definition coll_delete ::
  "'p::linorder codec \<Rightarrow> ('p, 'v) collection \<Rightarrow> ('p, 'v) target \<Rightarrow> unit option \<Rightarrow>
   store \<Rightarrow> ('p, 'v) py_record option res" where
  "coll_delete c coll obj txn st =
     (case (case obj of
              ByRecord r \<Rightarrow> Inr (Some r)
            | ByKey k \<Rightarrow>
                (case coll_get c coll k None True None st of
                   Inl e \<Rightarrow> Inl e
                 | Inr (Some (Rec r)) \<Rightarrow> Inr (Some r)
                 | Inr _ \<Rightarrow> Inr None)) of
        Inl e \<Rightarrow> (Inl e, st)
      | Inr None \<Rightarrow> (Inr None, st)
      | Inr (Some rec) \<Rightarrow>
          if truthy (r_key rec) then
            (case (if r_batch rec then split_batch rec txn st
                   else (Inr (),
                         delete_all (txn_or_engine txn)
                           (case r_index_keys rec of None \<Rightarrow> [] | Some ks \<Rightarrow> ks)
                           (h_delete (txn_or_engine txn)
                              (packs c (c_prefix coll) [the (r_key rec)]) st))) of
               (Inl e, st') \<Rightarrow> (Inl e, st')
             | (Inr _, st') \<Rightarrow>
                 (Inr (Some (rec\<lparr>r_key := None, r_batch := False, r_index_keys := None\<rparr>)), st'))
          else (Inr None, st))"


section \<open>Writing: \<open>put\<close>, counters and the encoder registry\<close>

text \<open>\<open>Collection._reassign_key\<close> (lines 835--840).  Calling a missing
  \<open>key_func\<close> raises \<open>TypeError\<close>.\<close>

definition reassign_key ::
  "('p, 'v) collection \<Rightarrow> ('p, 'v) py_record \<Rightarrow> unit option \<Rightarrow> store \<Rightarrow> 'p key res" where
  "reassign_key coll rec txn st =
     (if truthy (r_key rec) \<and> \<not> derived_keys coll then (Inr (the (r_key rec)), st)
      else case txn_key_func coll of
             Some f \<Rightarrow> f txn (r_data rec) st
           | None \<Rightarrow>
               (case key_func coll of
                  Some f \<Rightarrow> (Inr (f (r_data rec)), st)
                | None \<Rightarrow> (Inl TypeError, st)))"

text \<open>
  The lookup that \<open>put\<close> and \<open>_prepare_batch\<close> share:
  \<open>self.store._encoder_prefix.get(packer)\<close>, and \<open>add_encoder\<close> when there is no
  (or an empty) prefix.  The dict is keyed by the encoder's name.
\<close>

definition packer_prefix_of ::
  "(bytes encoder \<Rightarrow> store \<Rightarrow> bytes res) \<Rightarrow> bytes encoder \<Rightarrow> store \<Rightarrow> bytes res" where
  "packer_prefix_of add_enc packer st =
     (case encoder_prefix st (e_name packer) of
        Some b \<Rightarrow> if b \<noteq> [] then (Inr b, st) else add_enc packer st
      | None \<Rightarrow> add_enc packer st)"

fun put_all :: "handle \<Rightarrow> bytes list \<Rightarrow> store \<Rightarrow> store" where
  "put_all h [] st = st"
| "put_all h (k # ks) st = put_all h ks (h_put h k [] st)"

text \<open>
  \<open>Collection.put\<close> (lines 856--924), with \<open>Store.add_encoder\<close> as a parameter:
  \<open>add_encoder\<close> itself puts records into the metadata collections.
\<close>

datatype ('p, 'v) putting = PutValue 'v | PutRecord "('p, 'v) py_record"

definition put_with ::
  "(bytes encoder \<Rightarrow> store \<Rightarrow> bytes res) \<Rightarrow> 'p::linorder codec \<Rightarrow> ('p, 'v) collection \<Rightarrow>
   ('p, 'v) putting \<Rightarrow> unit option \<Rightarrow> bytes encoder option \<Rightarrow> 'p key option \<Rightarrow> bool \<Rightarrow>
   store \<Rightarrow> ('p, 'v) py_record res" where
  "put_with add_enc c coll arg txn packer0 key blind st0 =
     (let rec = (case arg of PutValue v \<Rightarrow> Record (c_name coll) v | PutRecord r \<Rightarrow> r) in
      bind (\<lambda>st. if truthy key then (Inr (the key), st) else reassign_key coll rec txn st)
       (\<lambda>obj_key.
        let idx_keys = index_keys c coll obj_key (r_data rec);
            h = txn_or_engine txn
        in
        bind (\<lambda>st.
               if r_coll rec = c_name coll \<and> truthy (r_key rec) then
                 bind (\<lambda>st.
                        if r_batch rec then split_batch rec txn st
                        else if the (r_key rec) \<noteq> obj_key
                        then (Inr (), h_delete h (packs c (c_prefix coll) [the (r_key rec)]) st)
                        else (Inr (), st))
                  (\<lambda>_ st.
                        if Some idx_keys \<noteq> r_index_keys rec
                        then (Inr (),
                              delete_all h
                                (case r_index_keys rec of None \<Rightarrow> [] | Some ks \<Rightarrow> ks) st)
                        else (Inr (), st)) st
               else if indices coll \<noteq> [] \<and> \<not> (blind \<or> c_blind coll) then
                 (case coll_delete c coll (ByKey obj_key) None st of
                    (Inl e, st') \<Rightarrow> (Inl e, st')
                  | (Inr _, st') \<Rightarrow> (Inr (), st'))
               else (Inr (), st))
         (\<lambda>_.
          let packer = (case packer0 of None \<Rightarrow> c_packer coll | Some p \<Rightarrow> p) in
          bind (packer_prefix_of add_enc packer)
           (\<lambda>packer_prefix st.
             (Inr (rec\<lparr>r_coll := c_name coll, r_key := Some obj_key,
                        r_index_keys := Some idx_keys\<rparr>),
              put_all h idx_keys
                (h_put h (packs c (c_prefix coll) [obj_key])
                   (packer_prefix @ e_pack packer (e_pack (c_encoder coll) (r_data rec)))
                   st))))) st0)"

text \<open>
  The metadata collections of \<open>Store.__init__\<close> (lines 1018--1025) that the
  counters and the registry use: \<open>_counter_coll\<close> at index 1 and
  \<open>_encoder_coll\<close> at index 2, both keyed by the first component of the
  value and encoded by \<open>KEY_ENCODER\<close>.
\<close>

definition KEY_ENCODER :: "'p codec \<Rightarrow> (string \<times> int) encoder" where
  "KEY_ENCODER c = \<lparr>e_name = ''key'', e_unpack = key_dec c, e_pack = key_enc c\<rparr>"

definition meta_coll :: "'p codec \<Rightarrow> store \<Rightarrow> string \<Rightarrow> nat \<Rightarrow> ('p, string \<times> int) collection" where
  "meta_coll c st name idx =
     \<lparr>c_name = name, c_prefix = s_prefix st @ pack_int c idx,
      key_func = Some (\<lambda>t. [prim_str c (fst t)]), txn_key_func = None,
      derived_keys = False, c_blind = False, c_encoder = KEY_ENCODER c,
      c_packer = PLAIN_PACKER, indices = []\<rparr>"

definition counter_coll :: "'p codec \<Rightarrow> store \<Rightarrow> ('p, string \<times> int) collection" where
  "counter_coll c st = meta_coll c st (CHR 0x00 # ''counters'') 1"

definition encoder_coll :: "'p codec \<Rightarrow> store \<Rightarrow> ('p, string \<times> int) collection" where
  "encoder_coll c st = meta_coll c st (CHR 0x00 # ''encoders'') 2"

text \<open>\<open>Store.count\<close> (lines 1065--1090), again over \<open>add_encoder\<close>.\<close>

definition count_with ::
  "(bytes encoder \<Rightarrow> store \<Rightarrow> bytes res) \<Rightarrow> 'p::linorder codec \<Rightarrow> string \<Rightarrow> int \<Rightarrow> int \<Rightarrow>
   unit option \<Rightarrow> store \<Rightarrow> int res" where
  "count_with add_enc c name n init txn st =
     (case coll_get c (counter_coll c st) [prim_str c name] (Some (name, init)) True txn st of
        Inl e \<Rightarrow> (Inl e, st)
      | Inr (Some (Rec rec)) \<Rightarrow>
          (let val = snd (r_data rec) in
           if n \<noteq> 0 then
             (case put_with add_enc c (counter_coll c st)
                     (PutRecord (rec\<lparr>r_data := (name, val + n)\<rparr>)) txn None None False st of
                (Inl e, st') \<Rightarrow> (Inl e, st')
              | (Inr _, st') \<Rightarrow> (Inr val, st'))
           else (Inr val, st))
      | Inr _ \<Rightarrow> (Inl TypeError, st))"

text \<open>
  \<open>Store.add_encoder\<close> (lines 1040--1053).  It calls \<open>count\<close> and \<open>put\<close>,
  which call it back when their own packer is not registered; the depth of that
  recursion is bounded as by Python's recursion limit.
\<close>

primrec add_encoder_fuel :: "nat \<Rightarrow> 'p::linorder codec \<Rightarrow> bytes encoder \<Rightarrow> store \<Rightarrow> bytes res" where
  "add_encoder_fuel 0 c enc st = (Inl RecursionError, st)"
| "add_encoder_fuel (Suc n) c enc st =
     (case encoder_prefix st (e_name enc) of
        Some b \<Rightarrow> (Inr b, st)
      | None \<Rightarrow>
         (case coll_get c (encoder_coll c st) [prim_str c (e_name enc)] None False None st of
            Inl e \<Rightarrow> (Inl e, st)
          | Inr (Some (Value t)) \<Rightarrow> (Inr (pack_int c (nat (snd t))), st)
          | Inr _ \<Rightarrow>
             bind (count_with (add_encoder_fuel n c) c (CHR 0x00 # ''encoder_idx'') 1 10 None)
              (\<lambda>idx st1.
                 if \<not> idx \<le> 240 then (Inl AssertionError, st1)
                 else
                   bind (put_with (add_encoder_fuel n c) c (encoder_coll c st1)
                           (PutValue (e_name enc, idx)) None None None False)
                    (\<lambda>rec st2.
                       (Inr (pack_int c (nat (snd (r_data rec)))),
                        st2\<lparr>encoder_prefix :=
                               (encoder_prefix st2)(e_name enc \<mapsto> pack_int c (nat idx)),
                             prefix_encoder :=
                               (prefix_encoder st2)(pack_int c (nat idx) \<mapsto> Packer enc)\<rparr>))
                     st1) st))"

definition add_encoder :: "'p::linorder codec \<Rightarrow> bytes encoder \<Rightarrow> store \<Rightarrow> bytes res" where
  "add_encoder c = add_encoder_fuel 1000 c"

definition coll_put ::
  "'p::linorder codec \<Rightarrow> ('p, 'v) collection \<Rightarrow> ('p, 'v) putting \<Rightarrow> unit option \<Rightarrow>
   bytes encoder option \<Rightarrow> 'p key option \<Rightarrow> bool \<Rightarrow> store \<Rightarrow> ('p, 'v) py_record res" where
  "coll_put c = put_with (add_encoder c) c"

definition store_count ::
  "'p::linorder codec \<Rightarrow> string \<Rightarrow> int \<Rightarrow> int \<Rightarrow> unit option \<Rightarrow> store \<Rightarrow> int res" where
  "store_count c = count_with (add_encoder c) c"

text \<open>
  The key function \<open>Collection.__init__\<close> installs when it is given none
  (lines 445--449): \<open>lambda txn, _: store.count(counter_name, txn=txn)\<close>; the
  integer is wrapped in a 1-tuple by \<open>tuplize\<close>.
\<close>

definition counter_key_func ::
  "'p::linorder codec \<Rightarrow> string \<Rightarrow> unit option \<Rightarrow> 'v \<Rightarrow> store \<Rightarrow> 'p key res" where
  "counter_key_func c counter_name txn v st =
     (case store_count c counter_name 1 1 txn st of
        (Inl e, st') \<Rightarrow> (Inl e, st')
      | (Inr n, st') \<Rightarrow> (Inr [prim_int c n], st'))"

section \<open>Batches\<close>

text \<open>\<open>Collection._prepare_batch\<close> (lines 799--816).\<close>

definition prepare_batch ::
  "'p::linorder codec \<Rightarrow> ('p, 'v) collection \<Rightarrow> ('p key \<times> bytes) list \<Rightarrow> bytes encoder \<Rightarrow>
   store \<Rightarrow> (bytes \<times> bytes) res" where
  "prepare_batch c coll items packer =
     bind (packer_prefix_of (add_encoder c) packer)
      (\<lambda>packer_prefix st.
         let keytups = map fst (rev items);
             phys = packs c (c_prefix coll) keytups
         in
         if length items = 1 then
           (Inr (phys, packer_prefix @ e_pack packer (snd (hd items))), st)
         else
           (Inr (phys,
                 pack_int c (length items)
                 @ concat (map (\<lambda>item. pack_int c (length (snd item))) items)
                 @ packer_prefix
                 @ e_pack packer (concat (map snd items))), st))"

text \<open>\<open>Collection._write_batch\<close> (lines 793--797); the result is the emptied
  list \<open>items\<close>.\<close>

definition write_batch ::
  "'p::linorder codec \<Rightarrow> ('p, 'v) collection \<Rightarrow> handle \<Rightarrow> ('p key \<times> bytes) list \<Rightarrow>
   bytes encoder \<Rightarrow> store \<Rightarrow> ('p key \<times> bytes) list res" where
  "write_batch c coll h items packer st =
     (if items \<noteq> [] then
        (case prepare_batch c coll items packer st of
           (Inl e, st') \<Rightarrow> (Inl e, st')
         | (Inr (phys, data), st') \<Rightarrow> (Inr [], h_put h phys data st'))
      else (Inr items, st))"

text \<open>
  \<open>Collection.batch\<close> (lines 688--791).  \<open>batch_loop\<close> is the body of the
  \<open>for\<close> loop, with \<open>items\<close> and \<open>groupval\<close> as loop state.  The function ends
  after the last \<open>_write_batch\<close> without a \<open>return\<close> statement: its value is
  Python's \<open>None\<close>.
\<close>

fun batch_loop ::
  "'p::linorder codec \<Rightarrow> ('p, 'v) collection \<Rightarrow> handle \<Rightarrow> bytes encoder \<Rightarrow> nat option \<Rightarrow>
   nat option \<Rightarrow> bool \<Rightarrow> ('v \<Rightarrow> 'g) option \<Rightarrow> (bool \<times> 'p key \<times> bytes) list \<Rightarrow>
   ('p key \<times> bytes) list \<Rightarrow> 'g option \<Rightarrow> store \<Rightarrow> ('p key \<times> bytes) list res" where
  "batch_loop c coll h packer max_recs max_bytes preserve grouper [] items groupval st =
     (Inr items, st)"
| "batch_loop c coll h packer max_recs max_bytes preserve grouper ((batch, key, data) # it)
     items groupval st =
     (if preserve \<and> batch then
        (case write_batch c coll h items packer st of
           (Inl e, st') \<Rightarrow> (Inl e, st')
         | (Inr items', st') \<Rightarrow>
             batch_loop c coll h packer max_recs max_bytes preserve grouper it items' groupval st')
      else
        (let st1 = h_delete h (packs c (c_prefix coll) [key]) st;
             items1 = items @ [(key, data)]
         in
         case (if max_bytes \<noteq> None \<and> max_bytes \<noteq> Some 0 then
                 (case prepare_batch c coll items1 packer st1 of
                    (Inl e, st') \<Rightarrow> (Inl e, st')
                  | (Inr (_, encoded), st') \<Rightarrow>
                      if length encoded > the max_bytes then
                        (case write_batch c coll h (butlast items1) packer st' of
                           (Inl e, st'') \<Rightarrow> (Inl e, st'')
                         | (Inr items', st'') \<Rightarrow> (Inr (items' @ [(key, data)]), st''))
                      else (Inr items1, st'))
               else (Inr items1, st1)) of
           (Inl e, st2) \<Rightarrow> (Inl e, st2)
         | (Inr items2, st2) \<Rightarrow>
            (let done0 = (max_recs \<noteq> None \<and> max_recs \<noteq> Some 0 \<and> length items2 = the max_recs);
                 val = (case grouper of
                          None \<Rightarrow> None
                        | Some g \<Rightarrow> Some (g (e_unpack (c_encoder coll) data)));
                 done = (if \<not> done0 \<and> grouper \<noteq> None then val \<noteq> groupval else done0);
                 groupval' = (if \<not> done0 \<and> grouper \<noteq> None then val else groupval)
             in
             if done then
               (case write_batch c coll h items2 packer st2 of
                  (Inl e, st') \<Rightarrow> (Inl e, st')
                | (Inr items', st') \<Rightarrow>
                    batch_loop c coll h packer max_recs max_bytes preserve grouper it items'
                      groupval' st')
             else
               batch_loop c coll h packer max_recs max_bytes preserve grouper it items2
                 groupval' st2)))"

definition coll_batch ::
  "'p::linorder codec \<Rightarrow> ('p, 'v) collection \<Rightarrow> 'p key option \<Rightarrow> 'p key option \<Rightarrow> nat option \<Rightarrow>
   nat option \<Rightarrow> nat option \<Rightarrow> bool \<Rightarrow> bytes encoder option \<Rightarrow> unit option \<Rightarrow> nat option \<Rightarrow>
   ('v \<Rightarrow> 'g) option \<Rightarrow> store \<Rightarrow> (nat \<times> nat \<times> 'p key) option res" where
  "coll_batch c coll lo hi max_recs max_bytes max_keylen preserve packer0 txn max_phys
     grouper st =
     (if max_keylen \<noteq> None then (Inl AssertionError, st)
      else if \<not> ((max_bytes \<noteq> None \<and> max_bytes \<noteq> Some 0)
                  \<or> (max_recs \<noteq> None \<and> max_recs \<noteq> Some 0))
      then (Inl AssertionError, st)
      else
        (let h = txn_or_engine txn;
             packer = (case packer0 of None \<Rightarrow> c_packer coll | Some p \<Rightarrow> p)
         in
         case coll_iter c coll st txn None lo hi False None True max_phys of
           Inl e \<Rightarrow> (Inl e, st)
         | Inr it \<Rightarrow>
            (case batch_loop c coll h packer max_recs max_bytes preserve grouper (fst it) []
                    None st of
               (Inl e, st') \<Rightarrow> (Inl e, st')
             | (Inr items, st') \<Rightarrow>
                 (case snd it of
                    Some e \<Rightarrow> (Inl e, st')
                  | None \<Rightarrow>
                     (case write_batch c coll h items packer st' of
                        (Inl e, st'') \<Rightarrow> (Inl e, st'')
                      | (Inr _, st'') \<Rightarrow> (Inr None, st''))))))"


section \<open>\<open>class Index\<close>\<close>

text \<open>
  \<open>Index._iter\<close> (lines 190--228), a generator: everything, the assertions
  included, runs at the first \<open>next()\<close>.  The engine yields pairs
  \<open>(key, value)\<close> and the predicate given to \<open>takewhile\<close> is a bound method of
  a byte string (\<open>lo.__le__\<close>, \<open>hi.__ge__\<close> or \<open>hi.__gt__\<close>) applied to such a
  pair: comparing a \<open>str\<close> with a tuple returns \<open>NotImplemented\<close>, which is
  true, whatever the bound and whatever \<open>include\<close> selects.
\<close>

definition str_cmp_pair :: "bytes \<Rightarrow> bytes \<times> bytes \<Rightarrow> bool" where
  "str_cmp_pair bound item = True"

fun index_decode :: "'p codec \<Rightarrow> bytes \<Rightarrow> kv \<Rightarrow> 'p key list list" where
  "index_decode c prefix [] = []"
| "index_decode c prefix ((k, v) # it) =
     (let key = unpacks c prefix k in
      if key = [] then [] else key # index_decode c prefix it)"

definition asserted :: "error + bytes \<Rightarrow> error + bytes" where
  "asserted r = (case r of Inl e \<Rightarrow> Inl e | Inr g \<Rightarrow> if g = [] then Inl AssertionError else Inr g)"

definition index_iter ::
  "'p codec \<Rightarrow> ('p, 'v) index \<Rightarrow> store \<Rightarrow> unit option \<Rightarrow> 'p key option \<Rightarrow> 'p key option \<Rightarrow>
   'p key option \<Rightarrow> bool \<Rightarrow> nat option \<Rightarrow> bool \<Rightarrow> 'p key list gen" where
  "index_iter c idx st txn key lo0 hi0 reverse max' include0 =
     (let lo1 = (case lo0 of None \<Rightarrow> i_prefix idx | Some l \<Rightarrow> packs c (i_prefix idx) [l]) in
      case (case hi0 of
              None \<Rightarrow> next_greater (i_prefix idx)
            | Some h \<Rightarrow> asserted (next_greater (packs c (i_prefix idx) [h]))) of
        Inl e \<Rightarrow> ([], Some e)
      | Inr hi1 \<Rightarrow>
         (case (case key of
                  None \<Rightarrow> Inr (lo1, hi1)
                | Some k \<Rightarrow>
                    if reverse then
                      (case asserted (next_greater (packs c (i_prefix idx) [k])) of
                         Inl e \<Rightarrow> Inl e | Inr g \<Rightarrow> Inr (lo1, g))
                    else Inr (packs c (i_prefix idx) [k], hi1)) of
            Inl e \<Rightarrow> ([], Some e)
          | Inr (lo, hi) \<Rightarrow>
             (let include1 = (if hi0 = None \<and> \<not> (truthy key \<and> reverse) then False
                              else if key \<noteq> None \<and> reverse then False else include0);
                  it = (if reverse
                        then takeWhile (str_cmp_pair lo) (h_iter (txn_or_engine txn) hi True st)
                        else takeWhile (str_cmp_pair hi) (h_iter (txn_or_engine txn) lo False st));
                  it' = (case max' of None \<Rightarrow> it | Some n \<Rightarrow> take n it)
              in (index_decode c (i_prefix idx) it', None))))"

text \<open>\<open>Index.pairs\<close> (lines 236--243).\<close>

definition index_pairs ::
  "'p codec \<Rightarrow> ('p, 'v) index \<Rightarrow> store \<Rightarrow> 'p key option \<Rightarrow> 'p key option \<Rightarrow> 'p key option \<Rightarrow>
   bool \<Rightarrow> nat option \<Rightarrow> bool \<Rightarrow> unit option \<Rightarrow> 'p key list gen" where
  "index_pairs c idx st args lo hi reverse max' include0 txn =
     index_iter c idx st txn args lo hi reverse max' include0"

text \<open>
  \<open>Index.items\<close> (lines 259--270).  \<open>for idx_key, key in ...\<close> raises
  \<open>ValueError\<close> on an entry that is not a pair.  \<open>if obj\<close> is Python's truth of
  the looked-up object: \<open>None\<close> is false, a \<open>Record\<close> is true, and the truth
  of a value is given by \<open>truth\<close>.  A false object is a stale entry: a warning
  is issued and the entry skipped.
\<close>

definition obj_truth :: "('v \<Rightarrow> bool) \<Rightarrow> ('p, 'v) got option \<Rightarrow> bool" where
  "obj_truth truth obj =
     (case obj of None \<Rightarrow> False | Some (Value v) \<Rightarrow> truth v | Some (Rec r) \<Rightarrow> True)"

fun index_items_loop ::
  "'p::linorder codec \<Rightarrow> ('p, 'v) collection \<Rightarrow> ('v \<Rightarrow> bool) \<Rightarrow> bool \<Rightarrow> unit option \<Rightarrow> store \<Rightarrow>
   'p key list list \<Rightarrow> ('p key \<times> ('p, 'v) got) gen" where
  "index_items_loop c coll truth rec txn st [] = ([], None)"
| "index_items_loop c coll truth rec txn st (entry # entries) =
     (case entry of
        [idx_key, key] \<Rightarrow>
          (case coll_get c coll key None rec txn st of
             Inl e \<Rightarrow> ([], Some e)
           | Inr obj \<Rightarrow>
               if obj_truth truth obj
               then gen_cons (key, the obj) (index_items_loop c coll truth rec txn st entries)
               else index_items_loop c coll truth rec txn st entries)
      | _ \<Rightarrow> ([], Some ValueError))"

definition index_items ::
  "'p::linorder codec \<Rightarrow> ('p, 'v) collection \<Rightarrow> ('p, 'v) index \<Rightarrow> ('v \<Rightarrow> bool) \<Rightarrow> store \<Rightarrow>
   'p key option \<Rightarrow> 'p key option \<Rightarrow> 'p key option \<Rightarrow> bool \<Rightarrow> nat option \<Rightarrow> bool \<Rightarrow>
   unit option \<Rightarrow> bool \<Rightarrow> ('p key \<times> ('p, 'v) got) gen" where
  "index_items c coll idx truth st args lo hi reverse max' include0 txn rec =
     (let ps = index_pairs c idx st args lo hi reverse max' include0 txn in
      gen_append (index_items_loop c coll truth rec txn st (fst ps)) ([], snd ps))"

text \<open>
  \<open>Index.has\<close> (lines 290--295): \<open>self.pairs(x)\<close>, without \<open>txn\<close>.
  Unpacking \<open>tup, key\<close> from an entry that is not a pair raises \<open>ValueError\<close>.
\<close>

definition index_has ::
  "'p codec \<Rightarrow> ('p, 'v) index \<Rightarrow> store \<Rightarrow> 'p key \<Rightarrow> unit option \<Rightarrow> error + bool" where
  "index_has c idx st x txn =
     (case gen_next (index_pairs c idx st (Some x) None None False None False None) of
        Inl e \<Rightarrow> Inl e
      | Inr None \<Rightarrow> Inr False
      | Inr (Some [tup, key]) \<Rightarrow> Inr (tup = x)
      | Inr (Some _) \<Rightarrow> Inl ValueError)"

text \<open>
  \<open>Index.get\<close> (lines 297--305): \<open>self.items(lo=x, hi=x, include=False,
  rec=rec)\<close>, without \<open>txn\<close>.
\<close>

definition index_get ::
  "'p::linorder codec \<Rightarrow> ('p, 'v) collection \<Rightarrow> ('p, 'v) index \<Rightarrow> ('v \<Rightarrow> bool) \<Rightarrow> store \<Rightarrow>
   'p key \<Rightarrow> unit option \<Rightarrow> bool \<Rightarrow> 'v option \<Rightarrow> error + ('p, 'v) got option" where
  "index_get c coll idx truth st x txn rec dflt =
     (case gen_next (index_items c coll idx truth st None (Some x) (Some x) False None False
                       None rec) of
        Inl e \<Rightarrow> Inl e
      | Inr (Some tup) \<Rightarrow> Inr (Some (snd tup))
      | Inr None \<Rightarrow>
          Inr (case dflt of
                 None \<Rightarrow> None
               | Some d \<Rightarrow> Some (if rec then Rec (Record (c_name coll) d) else Value d)))"


section \<open>\<open>class BatchRangeIterator\<close> (iterators.py)\<close>














section \<open>What the codec is assumed to do\<close>

text \<open>
  A varint written by \<open>pack_int\<close> is read back by \<open>read_int\<close> wherever it
  stands in a string.
\<close>

definition ints_ok :: "'p codec \<Rightarrow> bool" where
  "ints_ok c \<longleftrightarrow>
     (\<forall>pre n rest. read_int c (pre @ pack_int c n @ rest) (length pre)
                      = Some (n, length pre + length (pack_int c n)))"

text \<open>
  The tuple codec decodes what it encoded, and it keeps the order of single
  keys: the byte order of the engine agrees with the order of the tuples.
\<close>

definition keys_ok :: "'p codec \<Rightarrow> bool" where
  "keys_ok c \<longleftrightarrow> (\<forall>ks. ks \<noteq> [] \<longrightarrow> dec_keys c (enc_keys c ks) = ks)"

definition keys_mono :: "'p::linorder codec \<Rightarrow> bool" where
  "keys_mono c \<longleftrightarrow> (\<forall>a b. a < b \<longrightarrow> enc_keys c [a] < enc_keys c [b])"

text \<open>
  The state of a collection's key space that the lookups rely on: the engine
  holds its keys in strictly ascending order, and every entry under the
  collection's prefix is a single record, stored under the encoding of its key,
  whose value a registered packer unpacks.
\<close>

definition has_prefix :: "bytes \<Rightarrow> bytes \<Rightarrow> bool" where
  "has_prefix p k \<longleftrightarrow> take (length p) k = p"

definition single_record :: "'p codec \<Rightarrow> bytes \<Rightarrow> store \<Rightarrow> bytes \<times> bytes \<Rightarrow> bool" where
  "single_record c p st e \<longleftrightarrow>
     length (unpacks c p (fst e)) = 1
     \<and> fst e = packs c p (unpacks c p (fst e))
     \<and> (case decompress st (snd e) of Inl _ \<Rightarrow> False | Inr _ \<Rightarrow> True)"

definition coll_wf :: "'p codec \<Rightarrow> bytes \<Rightarrow> store \<Rightarrow> kv \<Rightarrow> bool" where
  "coll_wf c p st e \<longleftrightarrow>
     sorted_wrt (<) (map fst e)
     \<and> (\<forall>x \<in> set e. has_prefix p (fst x) \<longrightarrow> single_record c p st x)"

text \<open>The unpacked bytes stored for a key, if any.\<close>

definition stored :: "'p codec \<Rightarrow> bytes \<Rightarrow> store \<Rightarrow> kv \<Rightarrow> 'p key \<Rightarrow> bytes option" where
  "stored c p st e key =
     (case map_of e (packs c p [key]) of
        None \<Rightarrow> None
      | Some v \<Rightarrow> (case decompress st v of Inl _ \<Rightarrow> None | Inr d \<Rightarrow> Some d))"

text \<open>What \<open>Collection.get\<close> builds from the stored bytes, and from the default.\<close>

definition found_result ::
  "'p codec \<Rightarrow> ('p, 'v) collection \<Rightarrow> 'p key \<Rightarrow> bool \<Rightarrow> bytes \<Rightarrow> ('p, 'v) got" where
  "found_result c coll key rec d =
     (if rec then
        Rec \<lparr>r_coll = c_name coll, r_data = e_unpack (c_encoder coll) d, r_key = Some key,
             r_batch = False,
             r_index_keys = Some (index_keys c coll key (e_unpack (c_encoder coll) d))\<rparr>
      else Value (e_unpack (c_encoder coll) d))"

definition default_result :: "('p, 'v) collection \<Rightarrow> bool \<Rightarrow> 'v option \<Rightarrow> ('p, 'v) got option" where
  "default_result coll rec dflt =
     (case dflt of
        Some d \<Rightarrow> Some (if rec then Rec (Record (c_name coll) d) else Value d)
      | None \<Rightarrow> None)"

text \<open>
  The value a counter holds in the engine (or in the transaction), and a
  sequence of \<open>count\<close> calls on one counter, collecting the returned values.
\<close>

definition counter_value :: "'p codec \<Rightarrow> store \<Rightarrow> handle \<Rightarrow> string \<Rightarrow> int option" where
  "counter_value c st h name =
     (case stored c (c_prefix (counter_coll c st)) st (h_kv h st) [prim_str c name] of
        None \<Rightarrow> None
      | Some d \<Rightarrow> Some (snd (key_dec c d)))"

fun count_calls ::
  "'p::linorder codec \<Rightarrow> string \<Rightarrow> int list \<Rightarrow> int \<Rightarrow> unit option \<Rightarrow> store \<Rightarrow> int list res" where
  "count_calls c name [] init txn st = (Inr [], st)"
| "count_calls c name (n # ns) init txn st =
     (case store_count c name n init txn st of
        (Inl e, st') \<Rightarrow> (Inl e, st')
      | (Inr v, st') \<Rightarrow>
          (case count_calls c name ns init txn st' of
             (Inl e, st'') \<Rightarrow> (Inl e, st'')
           | (Inr vs, st'') \<Rightarrow> (Inr (v # vs), st'')))"

text \<open>The journal of the second store continues the journal of the first.\<close>

definition appends :: "store \<Rightarrow> store \<Rightarrow> bool" where
  "appends st st' \<longleftrightarrow> (\<exists>ops. journal st' = journal st @ ops)"

text \<open>The concatenated varints of a list, and the prefix sums of a list of deltas.\<close>

definition varints :: "'p codec \<Rightarrow> nat list \<Rightarrow> bytes" where
  "varints c ds = concat (map (pack_int c) ds)"

definition prefix_sums :: "nat list \<Rightarrow> nat list" where
  "prefix_sums ds = map (\<lambda>i. sum_list (take i ds)) [0 ..< length ds + 1]"

section \<open>A small codec and store for concrete runs\<close>

text \<open>
  An executable instance of the codec over natural-number primitives.  A varint
  up to 240 is one byte, as in keycoder; a larger \<open>n\<close> is the byte 241, then
  \<open>n - 241\<close> bytes 1 and a byte 0.  A primitive \<open>n\<close> is \<open>n\<close> bytes 2 and a
  byte 1; a tuple is its primitives and a byte 0; a list of tuples is their
  concatenation.  The stand-in for zlib puts a byte 0x78 in front.
\<close>

definition toy_unary :: "nat \<Rightarrow> bytes" where
  "toy_unary n = replicate n 1 @ [0]"

definition toy_pack_int :: "nat \<Rightarrow> bytes" where
  "toy_pack_int n = (if n \<le> 240 then [of_nat n] else 241 # toy_unary (n - 241))"

fun toy_scan :: "bytes \<Rightarrow> (nat \<times> nat) option" where
  "toy_scan [] = None"
| "toy_scan (b # bs) =
     (if b = 0 then Some (0, 1)
      else case toy_scan bs of None \<Rightarrow> None | Some (n, k) \<Rightarrow> Some (Suc n, Suc k))"

definition toy_read_int :: "bytes \<Rightarrow> nat \<Rightarrow> (nat \<times> nat) option" where
  "toy_read_int s pos =
     (case drop pos s of
        [] \<Rightarrow> None
      | b # rest \<Rightarrow>
          if unat b \<le> 240 then Some (unat b, pos + 1)
          else if b = 241 then
            (case toy_scan rest of None \<Rightarrow> None | Some (n, k) \<Rightarrow> Some (241 + n, pos + 1 + k))
          else None)"

definition toy_enc_prim :: "nat \<Rightarrow> bytes" where
  "toy_enc_prim n = replicate n 2 @ [1]"

definition toy_enc_key :: "nat key \<Rightarrow> bytes" where
  "toy_enc_key t = concat (map toy_enc_prim t) @ [0]"

definition toy_enc_keys :: "nat key list \<Rightarrow> bytes" where
  "toy_enc_keys ks = concat (map toy_enc_key ks)"

fun toy_dec_go :: "bytes \<Rightarrow> nat \<Rightarrow> nat key \<Rightarrow> nat key list" where
  "toy_dec_go [] n t = []"
| "toy_dec_go (b # bs) n t =
     (if b = 2 then toy_dec_go bs (Suc n) t
      else if b = 1 then toy_dec_go bs 0 (t @ [n])
      else t # toy_dec_go bs 0 [])"

definition toy_dec_keys :: "bytes \<Rightarrow> nat key list" where
  "toy_dec_keys bs = toy_dec_go bs 0 []"

fun toy_ints_go :: "bytes \<Rightarrow> nat \<Rightarrow> nat list" where
  "toy_ints_go [] n = []"
| "toy_ints_go (b # bs) n = (if b = 0 then n # toy_ints_go bs 0 else toy_ints_go bs (Suc n))"

definition toy_key_enc :: "string \<times> int \<Rightarrow> bytes" where
  "toy_key_enc v =
     concat (map toy_unary
       (map of_char (fst v) @ [if snd v < 0 then 1 else 0, nat \<bar>snd v\<bar>]))"

definition toy_key_dec :: "bytes \<Rightarrow> string \<times> int" where
  "toy_key_dec bs =
     (let ns = toy_ints_go bs 0; m = length ns in
      (map char_of (take (m - 2) ns),
       if ns ! (m - 2) = 1 then - int (ns ! (m - 1)) else int (ns ! (m - 1))))"

definition toy_codec :: "nat codec" where
  "toy_codec =
     \<lparr>enc_keys = toy_enc_keys, dec_keys = toy_dec_keys, pack_int = toy_pack_int,
      read_int = toy_read_int, prim_str = length, prim_int = nat,
      key_enc = toy_key_enc, key_dec = toy_key_dec,
      zlib_compress = (\<lambda>b. 0x78 # b), zlib_decompress = tl\<rparr>"

text \<open>
  \<open>Store.__init__\<close> (lines 1009--1017) over an empty engine.  The two dicts
  are filled from \<open>_ENCODERS = (KEY_ENCODER, PICKLE_ENCODER, PLAIN_PACKER,
  ZLIB_PACKER)\<close> (line 1114): the encoder at position \<open>i\<close> gets the prefix
  \<open>pack_int(1 + i)\<close>.  Creating the four metadata collections writes nothing.
\<close>

definition new_store :: "'p codec \<Rightarrow> bytes \<Rightarrow> store" where
  "new_store c prefix =
     \<lparr>s_prefix = prefix, engine = [], txn_kv = [], journal = [],
      encoder_prefix =
        ((((Map.empty(''key'' \<mapsto> pack_int c 1))(''pickle'' \<mapsto> pack_int c 2))
            (''plain'' \<mapsto> pack_int c 3))(''zlib'' \<mapsto> pack_int c 4)),
      prefix_encoder =
        ((((Map.empty(pack_int c 1 \<mapsto> Value_encoder ''key''))
             (pack_int c 2 \<mapsto> Value_encoder ''pickle''))
            (pack_int c 3 \<mapsto> Packer PLAIN_PACKER))(pack_int c 4 \<mapsto> Packer (ZLIB_PACKER c)))\<rparr>"

text \<open>
  A collection of natural numbers keyed by the value itself
  (\<open>key_func = lambda v: v\<close>), with one index on the parity of the value.
  Values are packed as that many bytes 0x2A.
\<close>

definition toy_index :: "(nat, nat) index" where
  "toy_index = \<lparr>i_name = ''parity'', i_prefix = [11], i_func = (\<lambda>v. One [v mod 2])\<rparr>"

definition toy_coll :: "(nat, nat) collection" where
  "toy_coll =
     \<lparr>c_name = ''numbers'', c_prefix = [10], key_func = Some (\<lambda>v. [v]), txn_key_func = None,
      derived_keys = False, c_blind = False,
      c_encoder = \<lparr>e_name = ''unary'', e_unpack = length, e_pack = (\<lambda>v. replicate v 0x2A)\<rparr>,
      c_packer = PLAIN_PACKER, indices = [toy_index]\<rparr>"


section \<open>\<open>Collection.gets\<close> (lines 652--654)\<close>

text \<open>
  \<open>return (self.get(x, default, rec, txn) for k in keys)\<close>.  The loop variable
  is \<open>k\<close>; the name \<open>x\<close> in the element expression is bound neither in
  \<open>gets\<close> nor at module level, so its evaluation raises \<open>NameError\<close>.
\<close>

definition global_name :: "string \<Rightarrow> error + 'a" where
  "global_name n = Inl (NameError n)"

fun coll_gets ::
  "'p::linorder codec \<Rightarrow> ('p, 'v) collection \<Rightarrow> 'p key list \<Rightarrow> 'v option \<Rightarrow> bool \<Rightarrow> unit option \<Rightarrow>
   store \<Rightarrow> ('p, 'v) got option gen" where
  "coll_gets c coll [] dflt rec txn st = ([], None)"
| "coll_gets c coll (k # keys) dflt rec txn st =
     (case global_name ''x'' of
        Inl e \<Rightarrow> ([], Some e)
      | Inr x \<Rightarrow>
          (case coll_get c coll x dflt rec txn st of
             Inl e \<Rightarrow> ([], Some e)
           | Inr v \<Rightarrow> gen_cons v (coll_gets c coll keys dflt rec txn st)))"

text \<open>Stores for concrete runs: two single records, and the same two records
  as one batch.\<close>

definition two_singles :: store where
  "two_singles =
     (new_store toy_codec [])\<lparr>engine :=
        [([10, 2, 1, 0], [3, 0x2A]), ([10, 2, 2, 1, 0], [3, 0x2A, 0x2A])]\<rparr>"

definition one_batch :: store where
  "one_batch =
     (new_store toy_codec [])\<lparr>engine :=
        [([10, 2, 2, 1, 0, 2, 1, 0], [2, 1, 2, 3, 0x2A, 0x2A, 0x2A])]\<rparr>"


text \<open>The two single records together with their entries in the parity index.\<close>

definition two_indexed :: store where
  "two_indexed =
     (new_store toy_codec [])\<lparr>engine :=
        [([10, 2, 1, 0], [3, 0x2A]), ([10, 2, 2, 1, 0], [3, 0x2A, 0x2A]),
         ([11, 1, 0, 2, 2, 1, 0], []), ([11, 2, 1, 0, 2, 1, 0], [])]\<rparr>"

section \<open>Properties of \<open>next_greater\<close>\<close>

lemma dropWhile_replicate_decomp:
  "\<exists>k. xs = replicate k a @ dropWhile (\<lambda>b. b = a) xs"
proof (induction xs)
  case Nil show ?case by simp
next
  case (Cons x xs)
  show ?case
  proof (cases "x = a")
    case True
    from Cons obtain k where k: "xs = replicate k a @ dropWhile (\<lambda>b. b = a) xs" by blast
    have "x # xs = replicate (Suc k) a @ dropWhile (\<lambda>b. b = a) (x # xs)"
      using True k by simp
    then show ?thesis by (rule exI)
  next
    case False
    then have "x # xs = replicate 0 a @ dropWhile (\<lambda>b. b = a) (x # xs)" by simp
    then show ?thesis by (rule exI)
  qed
qed

lemma rstrip_ff_decomp: "\<exists>k. s = rstrip_ff s @ replicate k 0xFF"
proof -
  obtain k where "rev s = replicate k 0xFF @ dropWhile (\<lambda>b. b = 0xFF) (rev s)"
    using dropWhile_replicate_decomp[of "rev s" "0xFF"] by (rule exE)
  then have "rev (rev s) = rev (replicate k 0xFF @ dropWhile (\<lambda>b. b = 0xFF) (rev s))"
    by simp
  then have "s = rstrip_ff s @ replicate k 0xFF"
    by (simp add: rstrip_ff_def)
  then show ?thesis by (rule exI)
qed

lemma rstrip_ff_last: "rstrip_ff s \<noteq> [] \<Longrightarrow> last (rstrip_ff s) \<noteq> 0xFF"
proof -
  assume a: "rstrip_ff s \<noteq> []"
  then have ne: "dropWhile (\<lambda>b. b = 0xFF) (rev s) \<noteq> []" by (simp add: rstrip_ff_def)
  then have "hd (dropWhile (\<lambda>b. b = 0xFF) (rev s)) \<noteq> 0xFF"
    by (rule hd_dropWhile)
  then show ?thesis using ne by (simp add: rstrip_ff_def last_rev)
qed

lemma rstrip_ff_empty_iff: "rstrip_ff s = [] \<longleftrightarrow> set s \<subseteq> {0xFF}"
  by (auto simp: rstrip_ff_def dropWhile_eq_Nil_conv)

lemma byte_neq_unat: "(b::byte) \<noteq> 0xFF \<Longrightarrow> unat b \<noteq> 255"
proof
  assume a: "b \<noteq> 0xFF" and "unat b = 255"
  then have "word_of_nat (unat b) = (word_of_nat 255 :: byte)" by simp
  then have "b = 0xFF" by simp
  with a show False by simp
qed

lemma byte_unat_less: "unat (b::byte) < 256"
  using unsigned_less[of b, where 'a=nat] by simp

lemma byte_succ_less: "(b::byte) \<noteq> 0xFF \<Longrightarrow> b < b + 1"
proof -
  assume "b \<noteq> 0xFF"
  then have "unat b \<noteq> 255" by (rule byte_neq_unat)
  moreover have "unat b < 256" by (rule byte_unat_less)
  ultimately have "unat b + unat (1::byte) < 2 ^ LENGTH(8)" by simp
  then have "unat (b + 1) = unat b + unat (1::byte)" using unat_add_lem[of b 1] by blast
  then show ?thesis by (simp add: word_less_nat_alt)
qed

lemma next_greater_prefix_less:
  assumes ne: "s2 \<noteq> []" and l: "last s2 \<noteq> (0xFF::byte)"
  shows "s2 @ t < butlast s2 @ [last s2 + 1]"
proof -
  have lt: "(butlast s2 @ last s2 # t, butlast s2 @ (last s2 + 1) # []) \<in> lexord {(u, v). u < v}"
    by (rule lexord_append_left_rightI) (simp add: byte_succ_less[OF l])
  have "butlast s2 @ last s2 # t = (butlast s2 @ [last s2]) @ t" by simp
  also have "\<dots> = s2 @ t" by (simp only: append_butlast_last_id[OF ne])
  finally have "butlast s2 @ last s2 # t = s2 @ t" .
  with lt show ?thesis unfolding list_less_def by (simp only:)
qed

lemma next_greater_all_ff:
  assumes "s \<noteq> []" and "set s \<subseteq> {0xFF}"
  shows "next_greater s = Inr []"
  using assms by (simp add: next_greater_def rstrip_ff_empty_iff)

lemma next_greater_succ:
  assumes "s \<noteq> []" and n: "\<not> set s \<subseteq> {0xFF}"
  shows "\<exists>r. next_greater s = Inr r \<and> r \<noteq> [] \<and> s < r \<and> (\<forall>t. s @ t < r)"
proof -
  define s2 where "s2 = rstrip_ff s"
  define r where "r = butlast s2 @ [last s2 + 1]"
  from n have ne: "s2 \<noteq> []" by (simp add: rstrip_ff_empty_iff s2_def)
  then have l: "last s2 \<noteq> 0xFF" unfolding s2_def by (rule rstrip_ff_last)
  then have "unat (last s2) \<noteq> 255" by (rule byte_neq_unat)
  moreover have "unat (last s2) < 256" by (rule byte_unat_less)
  ultimately have u: "\<not> unat (last s2) + 1 > 255" by simp
  have res: "next_greater s = Inr r"
    using assms ne u by (simp add: next_greater_def Let_def s2_def[symmetric] r_def)
  obtain k where k: "s = s2 @ replicate k 0xFF"
    unfolding s2_def using rstrip_ff_decomp[of s] by (rule exE)
  have all: "s @ t < r" for t
  proof -
    have "s2 @ (replicate k 0xFF @ t) < r"
      unfolding r_def using ne l by (rule next_greater_prefix_less)
    then show "s @ t < r" by (simp only: k append_assoc)
  qed
  from all[of "[]"] have "s < r" by (simp only: append_Nil2)
  moreover have "r \<noteq> []" by (simp add: r_def)
  ultimately show ?thesis
    using res all by blast
qed

text \<open>
  Claim C9.  On a non-empty byte string made only of 0xFF bytes, \<open>next_greater\<close>
  returns the empty string.  On every other non-empty byte string it returns a
  non-empty byte string that is strictly greater than the argument and strictly
  greater than every byte string having the argument as a prefix.
\<close>

theorem next_greater_boundary:
  assumes "s \<noteq> []"
  shows "(set s \<subseteq> {0xFF} \<longrightarrow> next_greater s = Inr [])
       \<and> (\<not> set s \<subseteq> {0xFF} \<longrightarrow>
            (\<exists>r. next_greater s = Inr r \<and> r \<noteq> [] \<and> s < r \<and> (\<forall>t. s @ t < r)))"
  using next_greater_all_ff[OF assms] next_greater_succ[OF assms] by blast

theorem next_greater_boundary_witness:
  "next_greater [0xFF, 0xFF] = Inr [] \<and>
   (\<exists>r. next_greater [0x61, 0xFF] = Inr r \<and> r \<noteq> [] \<and> [0x61, 0xFF] < r
        \<and> (\<forall>t. [0x61, 0xFF] @ t < r))"
proof -
  have h1: "[0xFF, 0xFF::byte] \<noteq> []" by simp
  have a1: "set [0xFF, 0xFF::byte] \<subseteq> {0xFF}" by simp
  have h2: "[0x61, 0xFF::byte] \<noteq> []" by simp
  have n2: "\<not> set [0x61, 0xFF::byte] \<subseteq> {0xFF}" by simp
  from next_greater_boundary[OF h1] a1 next_greater_boundary[OF h2] n2
  show ?thesis by blast
qed

section \<open>The batched layout and \<open>decode_offsets\<close>\<close>

lemma read_int_at:
  assumes "ints_ok c"
  shows "read_int c (pre @ pack_int c n @ rest) (length pre)
           = Some (n, length pre + length (pack_int c n))"
  using assms unfolding ints_ok_def by blast

lemma varints_Cons: "varints c (d # ds) = pack_int c d @ varints c ds"
  by (simp add: varints_def)

lemma varints_Nil: "varints c [] = []"
  by (simp add: varints_def)

lemma upt_Suc_shift: "[0 ..< Suc n] = 0 # map Suc [0 ..< n]"
  by (simp add: upt_rec[of 0 "Suc n"] map_Suc_upt del: upt_Suc)

lemma offsets_loop_varints:
  assumes ok: "ints_ok c"
  shows "offsets_loop c (pre @ varints c ds @ rest) (length ds) (length pre) pos out
           = Inr (out @ map (\<lambda>i. pos + sum_list (take (Suc i) ds)) [0 ..< length ds],
                  length pre + length (varints c ds))"
proof (induction ds arbitrary: pre pos out)
  case Nil
  show ?case by (simp add: varints_Nil)
next
  case (Cons d ds)
  have r: "read_int c (pre @ pack_int c d @ varints c ds @ rest) (length pre)
            = Some (d, length pre + length (pack_int c d))"
    by (rule read_int_at[OF ok])
  have ih: "offsets_loop c (pre @ pack_int c d @ varints c ds @ rest) (length ds)
              (length pre + length (pack_int c d)) (pos + d) (out @ [pos + d])
            = Inr (out @ (pos + d) # map (\<lambda>i. pos + d + sum_list (take (Suc i) ds)) [0 ..< length ds],
                  length pre + length (pack_int c d) + length (varints c ds))"
    using Cons.IH[of "pre @ pack_int c d" "pos + d" "out @ [pos + d]"] by simp
  have m: "map (\<lambda>i. pos + sum_list (take (Suc i) (d # ds))) [0 ..< length (d # ds)]
           = (pos + d) # map (\<lambda>i. pos + d + sum_list (take (Suc i) ds)) [0 ..< length ds]"
    by (simp only: list.size upt_Suc_shift add_Suc_right add_0_right) (simp add: add.assoc)
  show ?case
    by (simp only: m) (simp add: varints_Cons r ih)
qed


lemma it_offsets_loop_varints:
  assumes ok: "ints_ok c"
  shows "out \<noteq> [] \<Longrightarrow>
         it_offsets_loop c (pre @ varints c ds @ rest) (length ds) (length pre) out
           = Inr (out @ map (\<lambda>i. last out + sum_list (take (Suc i) ds)) [0 ..< length ds],
                  length pre + length (varints c ds))"
proof (induction ds arbitrary: pre out)
  case Nil
  show ?case by (simp add: varints_Nil)
next
  case (Cons d ds)
  have r: "read_int c (pre @ pack_int c d @ varints c ds @ rest) (length pre)
            = Some (d, length pre + length (pack_int c d))"
    by (rule read_int_at[OF ok])
  have ih: "it_offsets_loop c (pre @ pack_int c d @ varints c ds @ rest) (length ds)
              (length pre + length (pack_int c d)) (out @ [last out + d])
            = Inr (out @ (last out + d)
                     # map (\<lambda>i. last out + d + sum_list (take (Suc i) ds)) [0 ..< length ds],
                  length pre + length (pack_int c d) + length (varints c ds))"
    using Cons.IH[of "out @ [last out + d]" "pre @ pack_int c d"] by simp
  have m: "map (\<lambda>i. last out + sum_list (take (Suc i) (d # ds))) [0 ..< length (d # ds)]
           = (last out + d)
               # map (\<lambda>i. last out + d + sum_list (take (Suc i) ds)) [0 ..< length ds]"
    by (simp only: list.size upt_Suc_shift add_Suc_right add_0_right) (simp add: add.assoc)
  show ?case
    by (simp only: m) (simp add: varints_Cons r ih)
qed

lemma prefix_sums_alt:
  "prefix_sums ds = 0 # map (\<lambda>i. sum_list (take (Suc i) ds)) [0 ..< length ds]"
  unfolding prefix_sums_def by (simp only: Suc_eq_plus1[symmetric] upt_Suc_shift) simp

lemma decode_offsets_header:
  assumes ok: "ints_ok c"
  shows "decode_offsets c (pack_int c (length ds) @ varints c ds @ rest)
           = Inr (prefix_sums ds, length (pack_int c (length ds)) + length (varints c ds))"
proof -
  have r: "read_int c ([] @ pack_int c (length ds) @ varints c ds @ rest) (length ([]::bytes))
             = Some (length ds, length ([]::bytes) + length (pack_int c (length ds)))"
    by (rule read_int_at[OF ok])
  have l: "offsets_loop c (pack_int c (length ds) @ varints c ds @ rest) (length ds)
             (length (pack_int c (length ds))) 0 [0]
           = Inr ([0] @ map (\<lambda>i. 0 + sum_list (take (Suc i) ds)) [0 ..< length ds],
                  length (pack_int c (length ds)) + length (varints c ds))"
    by (rule offsets_loop_varints[OF ok])
  show ?thesis using r by (simp add: decode_offsets_def l prefix_sums_alt)
qed

lemma it_decode_offsets_header:
  assumes ok: "ints_ok c"
  shows "it_decode_offsets c (pack_int c (length ds) @ varints c ds @ rest)
           = Inr (prefix_sums ds, length (pack_int c (length ds)) + length (varints c ds))"
proof -
  have r: "read_int c ([] @ pack_int c (length ds) @ varints c ds @ rest) (length ([]::bytes))
             = Some (length ds, length ([]::bytes) + length (pack_int c (length ds)))"
    by (rule read_int_at[OF ok])
  have l: "it_offsets_loop c (pack_int c (length ds) @ varints c ds @ rest) (length ds)
             (length (pack_int c (length ds))) [0]
           = Inr ([0] @ map (\<lambda>i. last [0] + sum_list (take (Suc i) ds)) [0 ..< length ds],
                  length (pack_int c (length ds)) + length (varints c ds))"
    by (rule it_offsets_loop_varints[OF ok]) simp
  show ?thesis using r by (simp add: it_decode_offsets_def l prefix_sums_alt)
qed

lemma prefix_sums_length: "length (prefix_sums ds) = length ds + 1"
  by (simp add: prefix_sums_def)

lemma prefix_sums_hd: "hd (prefix_sums ds) = 0"
  by (simp add: prefix_sums_alt)

lemma sum_list_take_mono: "i \<le> j \<Longrightarrow> sum_list (take i ds) \<le> sum_list (take j (ds::nat list))"
proof -
  assume "i \<le> j"
  then obtain k where j: "j = i + k" using le_Suc_ex by blast
  show ?thesis unfolding j by (simp add: take_add)
qed

lemma prefix_sums_sorted: "sorted (prefix_sums ds)"
  unfolding prefix_sums_def
  by (simp only: sorted_iff_nth_mono) (simp add: sum_list_take_mono del: upt_Suc)


lemma toy_scan_pack: "toy_scan (replicate n 1 @ 0 # rest) = Some (n, Suc n)"
  by (induction n) simp_all

lemma byte_of_nat_small: "n \<le> 240 \<Longrightarrow> unat (of_nat n :: byte) = n"
  by (simp add: unat_of_nat)

lemma toy_read_int_pack:
  "toy_read_int (pre @ toy_pack_int n @ rest) (length pre)
     = Some (n, length pre + length (toy_pack_int n))"
proof (cases "n \<le> 240")
  case True
  then show ?thesis
    by (simp add: toy_read_int_def toy_pack_int_def byte_of_nat_small)
next
  case False
  have u: "\<not> unat (241 :: byte) \<le> 240" by simp
  show ?thesis
    using False u
    by (simp add: toy_read_int_def toy_pack_int_def toy_unary_def toy_scan_pack)
qed

lemma prepare_batch_many:
  assumes reg: "encoder_prefix st (e_name packer) = Some pp" and pp: "pp \<noteq> []"
    and n: "length items > 1"
  shows "prepare_batch c coll items packer st
           = (Inr (packs c (c_prefix coll) (rev (map fst items)),
                   (pack_int c (length items) @ varints c (map (\<lambda>item. length (snd item)) items))
                   @ pp @ e_pack packer (concat (map snd items))), st)"
  using reg pp n
  by (simp add: prepare_batch_def bind_def packer_prefix_of_def Let_def varints_def
      rev_map comp_def)

text \<open>
  Claim C5.  For a list of \<open>N > 1\<close> records, \<open>_prepare_batch\<close> returns as
  physical key the encoding of the reversed list of the \<open>N\<close> keys, and as
  physical value \<open>varint(N)\<close>, then the \<open>N\<close> varint lengths of the values in
  forward order, then the packer's prefix, then the packed concatenation of the
  values in forward order.  Both \<open>decode_offsets\<close> functions recover from that
  value the \<open>N + 1\<close> ascending offsets, starting at 0, that are the prefix sums
  of the lengths, and the position where the header ends.
\<close>

theorem prepare_batch_layout:
  assumes ok: "ints_ok c"
    and reg: "encoder_prefix st (e_name packer) = Some pp" and pp: "pp \<noteq> []"
    and n: "length items > 1"
  shows "\<exists>header.
           header = pack_int c (length items) @ varints c (map (\<lambda>item. length (snd item)) items)
         \<and> prepare_batch c coll items packer st
             = (Inr (packs c (c_prefix coll) (rev (map fst items)),
                     header @ pp @ e_pack packer (concat (map snd items))), st)
         \<and> decode_offsets c (header @ pp @ e_pack packer (concat (map snd items)))
             = Inr (prefix_sums (map (\<lambda>item. length (snd item)) items), length header)
         \<and> it_decode_offsets c (header @ pp @ e_pack packer (concat (map snd items)))
             = Inr (prefix_sums (map (\<lambda>item. length (snd item)) items), length header)
         \<and> length (prefix_sums (map (\<lambda>item. length (snd item)) items)) = length items + 1
         \<and> hd (prefix_sums (map (\<lambda>item. length (snd item)) items)) = 0
         \<and> sorted (prefix_sums (map (\<lambda>item. length (snd item)) items))"
proof -
  define ds where "ds = map (\<lambda>item. length (snd item)) items"
  define rest where "rest = pp @ e_pack packer (concat (map snd items))"
  have len: "length ds = length items" by (simp add: ds_def)
  have pb: "prepare_batch c coll items packer st
             = (Inr (packs c (c_prefix coll) (rev (map fst items)),
                     (pack_int c (length items) @ varints c ds) @ rest), st)"
    unfolding ds_def rest_def by (rule prepare_batch_many[OF reg pp n])
  have d1: "decode_offsets c ((pack_int c (length items) @ varints c ds) @ rest)
             = Inr (prefix_sums ds, length (pack_int c (length items) @ varints c ds))"
    using decode_offsets_header[OF ok, of ds rest] by (simp add: len)
  have d2: "it_decode_offsets c ((pack_int c (length items) @ varints c ds) @ rest)
             = Inr (prefix_sums ds, length (pack_int c (length items) @ varints c ds))"
    using it_decode_offsets_header[OF ok, of ds rest] by (simp add: len)
  have l: "length (prefix_sums ds) = length items + 1"
    by (simp add: prefix_sums_length len)
  show ?thesis
    using pb d1 d2 l prefix_sums_hd[of ds] prefix_sums_sorted[of ds]
    unfolding ds_def[symmetric] rest_def[symmetric] by blast
qed


lemma toy_ints_ok: "ints_ok toy_codec"
  unfolding ints_ok_def by (simp add: toy_codec_def toy_read_int_pack)


theorem prepare_batch_layout_witness:
  "prepare_batch toy_codec toy_coll [([1], [0x61]), ([2], [0x62, 0x63])] PLAIN_PACKER
     (new_store toy_codec [])
     = (Inr ([10, 2, 2, 1, 0, 2, 1, 0], [2, 1, 2, 3, 0x61, 0x62, 0x63]),
        new_store toy_codec [])
   \<and> decode_offsets toy_codec [2, 1, 2, 3, 0x61, 0x62, 0x63] = Inr ([0, 1, 3], 3)
   \<and> it_decode_offsets toy_codec [2, 1, 2, 3, 0x61, 0x62, 0x63] = Inr ([0, 1, 3], 3)"
proof -
  have reg: "encoder_prefix (new_store toy_codec []) (e_name PLAIN_PACKER) = Some [3]"
    by (simp add: new_store_def PLAIN_PACKER_def toy_codec_def toy_pack_int_def)
  have pp: "[3::byte] \<noteq> []" by simp
  have n: "length [([1::nat], [0x61::byte]), ([2], [0x62, 0x63])] > 1" by simp
  have v: "varints toy_codec [Suc 0, Suc (Suc 0)] = [1, 2]"
    by (simp add: varints_def toy_codec_def toy_pack_int_def)
  have p: "pack_int toy_codec (Suc (Suc 0)) = [2]"
    by (simp add: toy_codec_def toy_pack_int_def)
  have k: "packs toy_codec (c_prefix toy_coll) [[2], [Suc 0]] = [10, 2, 2, 1, 0, 2, 1, 0]"
    by (simp add: packs_def toy_codec_def toy_coll_def toy_enc_keys_def toy_enc_key_def
        toy_enc_prim_def numeral_2_eq_2)
  have s: "prefix_sums [Suc 0, Suc (Suc 0)] = [0, Suc 0, 3]"
    by (simp add: prefix_sums_def upt_rec numeral_3_eq_3)
  from prepare_batch_layout[OF toy_ints_ok reg pp n, of toy_coll]
  show ?thesis by (simp add: v p k s PLAIN_PACKER_def)
qed

section \<open>Defects the source shows on concrete inputs\<close>

text \<open>
  Claim C8.  \<open>Collection.gets\<close> is documented to yield \<open>get(k)\<close> for each
  \<open>k\<close> in \<open>keys\<close>.  On every non-empty \<open>keys\<close> the generator yields nothing
  and raises \<open>NameError\<close> for the unbound name \<open>x\<close>.
\<close>

theorem gets_raises_NameError:
  "coll_gets c coll (k # keys) dflt rec txn st = ([], Some (NameError ''x''))"
  by (simp add: global_name_def)

lemma get_in_one_batch:
  "coll_get toy_codec toy_coll [1] None True None one_batch
     = Inr (Some (Rec \<lparr>r_coll = ''numbers'', r_data = 1, r_key = Some [1], r_batch = True,
                         r_index_keys = Some [[11, 2, 1, 0, 2, 1, 0]]\<rparr>))"
  by code_simp

lemma delete_of_batched_record:
  "truthy (r_key r) \<Longrightarrow> r_batch r \<Longrightarrow>
   coll_delete c coll (ByRecord r) txn st = (Inl AssertionError, st)"
  by (simp add: coll_delete_def split_batch_def)

text \<open>
  Claim C3.  Deleting a record that lives in a batch is documented to explode
  the batch.  In the store \<open>one_batch\<close>, whose only physical record batches the
  keys \<open>(1,)\<close> and \<open>(2,)\<close>, \<open>delete((1,))\<close> raises \<open>AssertionError\<close> in
  \<open>_split_batch\<close> and leaves the store as it was.
\<close>

theorem delete_in_batch_raises:
  "coll_delete toy_codec toy_coll (ByKey [1]) None one_batch = (Inl AssertionError, one_batch)"
  using get_in_one_batch by (simp add: coll_delete_def truthy_def split_batch_def)


lemma batch_returns_no_triple:
  "(\<exists>e. fst (coll_batch c coll lo hi max_recs max_bytes max_keylen preserve packer txn
              max_phys grouper st) = Inl e)
   \<or> fst (coll_batch c coll lo hi max_recs max_bytes max_keylen preserve packer txn
              max_phys grouper st) = Inr None"
  by (simp add: coll_batch_def Let_def split: sum.splits prod.splits option.splits)

text \<open>
  Claim C6.  \<open>Collection.batch\<close> is documented to return
  \<open>(found, made, last_key)\<close>.  On the store \<open>two_singles\<close> with
  \<open>max_recs = 2\<close> it deletes the two single records, writes one batch and
  returns \<open>None\<close>.
\<close>

theorem batch_returns_None:
  "fst (coll_batch toy_codec toy_coll None None (Some 2) None None True None None None
          (None :: (nat \<Rightarrow> nat) option) two_singles) = Inr None
   \<and> journal (snd (coll_batch toy_codec toy_coll None None (Some 2) None None True None None
          None (None :: (nat \<Rightarrow> nat) option) two_singles))
       = [Delete Engine [10, 2, 1, 0], Delete Engine [10, 2, 2, 1, 0],
          Put Engine [10, 2, 2, 1, 0, 2, 1, 0] [2, 1, 2, 3, 42, 42, 42]]"
  by code_simp

section \<open>Index point lookups and the transaction argument\<close>

lemma h_iter_engine_txn_kv:
  "h_iter Engine start reverse (st\<lparr>txn_kv := t\<rparr>) = h_iter Engine start reverse st"
  by (simp add: h_iter_def h_kv_def)

lemma txn_or_engine_None: "txn_or_engine None = Engine"
  by (simp add: txn_or_engine_def)

lemma get_encoder_txn_kv: "get_encoder (st\<lparr>txn_kv := t\<rparr>) p = get_encoder st p"
  by (simp add: get_encoder_def)

lemma decompress_txn_kv: "decompress (st\<lparr>txn_kv := t\<rparr>) s = decompress st s"
  unfolding decompress_def get_encoder_txn_kv ..

lemma logical_loop_txn_kv:
  "logical_loop c p (st\<lparr>txn_kv := t\<rparr>) reverse it = logical_loop c p st reverse it"
proof (induction it)
  case Nil
  show ?case by simp
next
  case (Cons a it)
  obtain k v where a: "a = (k, v)" by (cases a)
  show ?case unfolding a logical_loop.simps decompress_txn_kv Cons.IH ..
qed

lemma logical_iter_txn_kv:
  "logical_iter c p (st\<lparr>txn_kv := t\<rparr>) it reverse = logical_iter c p st it reverse"
  unfolding logical_iter_def logical_loop_txn_kv ..

lemma coll_iter_txn_kv:
  "coll_iter c coll (st\<lparr>txn_kv := t\<rparr>) None key lo hi reverse m incl max_phys
     = coll_iter c coll st None key lo hi reverse m incl max_phys"
  unfolding coll_iter_def txn_or_engine_None h_iter_engine_txn_kv logical_iter_txn_kv ..

lemma coll_get_txn_kv:
  "coll_get c coll key dflt rec None (st\<lparr>txn_kv := t\<rparr>) = coll_get c coll key dflt rec None st"
  unfolding coll_get_def coll_iter_txn_kv ..

lemma index_iter_txn_kv:
  "index_iter c idx (st\<lparr>txn_kv := t\<rparr>) None key lo hi reverse m incl
     = index_iter c idx st None key lo hi reverse m incl"
  unfolding index_iter_def txn_or_engine_None h_iter_engine_txn_kv ..

lemma index_items_loop_txn_kv:
  "index_items_loop c coll truth rec None (st\<lparr>txn_kv := t\<rparr>) es
     = index_items_loop c coll truth rec None st es"
proof (induction es)
  case Nil
  show ?case by simp
next
  case (Cons e es)
  show ?case unfolding index_items_loop.simps coll_get_txn_kv Cons.IH ..
qed

lemma index_has_txn_kv: "index_has c idx (st\<lparr>txn_kv := t\<rparr>) x txn = index_has c idx st x txn'"
  unfolding index_has_def index_pairs_def index_iter_txn_kv ..

lemma index_get_txn_kv:
  "index_get c coll idx truth (st\<lparr>txn_kv := t\<rparr>) x txn rec dflt
     = index_get c coll idx truth st x txn' rec dflt"
  unfolding index_get_def index_items_def index_pairs_def index_iter_txn_kv
    index_items_loop_txn_kv ..

text \<open>
  Claim C10.  \<open>Index.has\<close> and \<open>Index.get\<close> return the same result with a
  transaction handle as without one: neither forwards \<open>txn\<close> to the index scan,
  so both read the store's engine, whatever the transaction handle holds.
\<close>

theorem index_lookups_ignore_txn:
  "index_has c idx st x txn = index_has c idx st x None
   \<and> index_get c coll idx truth st x txn rec dflt = index_get c coll idx truth st x None rec dflt
   \<and> index_has c idx (st\<lparr>txn_kv := t\<rparr>) x txn = index_has c idx st x None
   \<and> index_get c coll idx truth (st\<lparr>txn_kv := t\<rparr>) x txn rec dflt
       = index_get c coll idx truth st x None rec dflt"
proof (intro conjI)
  show "index_has c idx st x txn = index_has c idx st x None"
    unfolding index_has_def ..
  show "index_get c coll idx truth st x txn rec dflt = index_get c coll idx truth st x None rec dflt"
    unfolding index_get_def ..
  show "index_has c idx (st\<lparr>txn_kv := t\<rparr>) x txn = index_has c idx st x None"
    by (rule index_has_txn_kv)
  show "index_get c coll idx truth (st\<lparr>txn_kv := t\<rparr>) x txn rec dflt
          = index_get c coll idx truth st x None rec dflt"
    by (rule index_get_txn_kv)
qed


lemma toy_index_lookups:
  "index_has toy_codec toy_index two_indexed [1] None = Inr True
   \<and> index_get toy_codec toy_coll toy_index (\<lambda>v. v \<noteq> 0) two_indexed [1] None False None
       = Inr (Some (Value 1))"
  by code_simp

theorem index_lookups_ignore_txn_witness:
  "index_has toy_codec toy_index (two_indexed\<lparr>txn_kv := [([11, 0], [])]\<rparr>) [1] (Some ())
     = Inr True
   \<and> index_get toy_codec toy_coll toy_index (\<lambda>v. v \<noteq> 0)
        (two_indexed\<lparr>txn_kv := [([11, 0], [])]\<rparr>) [1] (Some ()) False None
     = Inr (Some (Value 1))"
  using index_lookups_ignore_txn[of toy_codec toy_index two_indexed "[1]" "Some ()" toy_coll
      "\<lambda>v. v \<noteq> 0" False None "[([11, 0], [])]"] toy_index_lookups
  by (simp only:)

section \<open>The batch round trip\<close>

lemma unpacks_packs:
  assumes "keys_ok c" and "ks \<noteq> []"
  shows "unpacks c p (packs c p ks) = ks"
  using assms by (simp add: unpacks_def packs_def keys_ok_def)







lemma decompress_registered:
  "prefix_encoder st [b] = Some (Packer packer) \<Longrightarrow>
   decompress st (b # x) = Inr (e_unpack packer x)"
  by (simp add: decompress_def get_encoder_def)








lemma prefix_encoder_h_put: "prefix_encoder (h_put h k v st) = prefix_encoder st"
  by (cases h) (simp_all add: h_put_def)

lemma toy_dec_go_twos: "toy_dec_go (replicate m 2 @ bs) n t = toy_dec_go bs (n + m) t"
  by (induction m arbitrary: n) simp_all

lemma toy_dec_go_prim: "toy_dec_go (toy_enc_prim x @ bs) 0 t = toy_dec_go bs 0 (t @ [x])"
  by (simp add: toy_enc_prim_def toy_dec_go_twos)

lemma toy_dec_go_prims:
  "toy_dec_go (concat (map toy_enc_prim k) @ bs) 0 t = toy_dec_go bs 0 (t @ k)"
  by (induction k arbitrary: t) (simp_all add: toy_dec_go_prim)

lemma toy_dec_go_key: "toy_dec_go (toy_enc_key k @ bs) 0 [] = k # toy_dec_go bs 0 []"
  by (simp add: toy_enc_key_def toy_dec_go_prims)

lemma toy_dec_go_keys: "toy_dec_go (toy_enc_keys ks @ bs) 0 [] = ks @ toy_dec_go bs 0 []"
  by (induction ks) (simp_all add: toy_enc_keys_def toy_dec_go_key)

lemma toy_keys_ok: "keys_ok toy_codec"
proof -
  have "toy_dec_keys (toy_enc_keys ks) = ks" for ks
    using toy_dec_go_keys[of ks "[]"] by (simp add: toy_dec_keys_def)
  then show ?thesis by (simp add: keys_ok_def toy_codec_def)
qed




section \<open>The engine as a sorted list\<close>

lemma kv_put_set_subset: "set (kv_put k v e) \<subseteq> insert (k, v) (set e)"
  by (induction e) (auto split: if_splits)

lemma kv_put_sorted:
  "sorted_wrt (<) (map fst e) \<Longrightarrow> sorted_wrt (<) (map fst (kv_put k v e))"
proof (induction e)
  case Nil
  show ?case by simp
next
  case (Cons a e)
  obtain k' v' where a: "a = (k', v')" by (cases a)
  from Cons.prems have tail: "sorted_wrt (<) (map fst e)"
    and above: "\<forall>x \<in> set e. k' < fst x" by (auto simp: a)
  show ?case
  proof (cases "k < k'")
    case True
    have "\<forall>x \<in> set e. k < fst x"
    proof
      fix x assume "x \<in> set e"
      with above have "k' < fst x" by simp
      with True show "k < fst x" by (rule less_trans)
    qed
    then show ?thesis using True tail above by (simp add: a)
  next
    case False
    show ?thesis
    proof (cases "k = k'")
      case True
      then show ?thesis using tail above by (simp add: a)
    next
      case ne: False
      with False have lt: "k' < k" by simp
      have "\<forall>x \<in> set (kv_put k v e). k' < fst x"
      proof
        fix x assume "x \<in> set (kv_put k v e)"
        then have "x = (k, v) \<or> x \<in> set e" using kv_put_set_subset[of k v e] by blast
        then show "k' < fst x" using above lt by auto
      qed
      then show ?thesis using False ne Cons.IH[OF tail] by (simp add: a)
    qed
  qed
qed

lemma kv_put_map_of_same: "map_of (kv_put k v e) k = Some v"
  by (induction e) auto

lemma kv_put_map_of_other: "k' \<noteq> k \<Longrightarrow> map_of (kv_put k v e) k' = map_of e k'"
  by (induction e) auto

lemma kv_delete_sorted:
  "sorted_wrt (<) (map fst e) \<Longrightarrow> sorted_wrt (<) (map fst (kv_delete k e))"
  unfolding kv_delete_def by (induction e) auto

lemma kv_delete_set: "set (kv_delete k e) = {x \<in> set e. fst x \<noteq> k}"
  by (auto simp: kv_delete_def)

lemma kv_delete_map_of_same: "map_of (kv_delete k e) k = None"
  by (induction e) (auto simp: kv_delete_def)

lemma kv_delete_map_of_other: "k' \<noteq> k \<Longrightarrow> map_of (kv_delete k e) k' = map_of e k'"
  by (induction e) (auto simp: kv_delete_def)

lemma sorted_map_of_mem:
  "sorted_wrt (<) (map fst (e::kv)) \<Longrightarrow> (k, v) \<in> set e \<longleftrightarrow> map_of e k = Some v"
proof -
  assume "sorted_wrt (<) (map fst e)"
  then have "sorted (map fst e) \<and> distinct (map fst e)"
    by (rule iffD1[OF strict_sorted_iff])
  then have "distinct (map fst e)" by (rule conjunct2)
  then show ?thesis by simp
qed


section \<open>Lookups by key\<close>

lemma has_prefix_append: "has_prefix p (p @ x)"
  by (simp add: has_prefix_def)

lemma has_prefix_packs: "has_prefix p (packs c p ks)"
  by (simp add: packs_def has_prefix_append)

lemma has_prefix_Cons:
  "has_prefix (q # p) k \<longleftrightarrow> (\<exists>k'. k = q # k' \<and> has_prefix p k')"
  by (cases k) (auto simp: has_prefix_def)

lemma has_prefix_between:
  "has_prefix p a \<Longrightarrow> has_prefix p b \<Longrightarrow> a \<le> x \<Longrightarrow> x \<le> b \<Longrightarrow> has_prefix p (x::bytes)"
proof (induction p arbitrary: a b x)
  case Nil
  show ?case by (simp add: has_prefix_def)
next
  case (Cons q p)
  from Cons.prems(1) obtain a' where a: "a = q # a'" and pa: "has_prefix p a'"
    unfolding has_prefix_Cons by blast
  from Cons.prems(2) obtain b' where b: "b = q # b'" and pb: "has_prefix p b'"
    unfolding has_prefix_Cons by blast
  from Cons.prems(3) have "x \<noteq> []" unfolding a by auto
  then obtain y x' where x: "x = y # x'" by (cases x) auto
  from Cons.prems(3) have 1: "q < y \<or> q = y \<and> a' \<le> x'" unfolding a x by simp
  from Cons.prems(4) have 2: "y < q \<or> y = q \<and> x' \<le> b'" unfolding b x by simp
  from 1 2 have yq: "y = q" and le1: "a' \<le> x'" and le2: "x' \<le> b'" by auto
  have "has_prefix p x'" using pa pb le1 le2 by (rule Cons.IH)
  then show ?case unfolding x yq has_prefix_Cons by blast
qed

lemma filter_ge_found:
  "sorted_wrt (<) (map fst (e::kv)) \<Longrightarrow> (k, v) \<in> set e \<Longrightarrow>
   \<exists>rest. filter (\<lambda>p. k \<le> fst p) e = (k, v) # rest"
proof (induction e)
  case Nil
  then show ?case by simp
next
  case (Cons a e)
  from Cons.prems(1) have tail: "sorted_wrt (<) (map fst e)"
    and above: "\<forall>x \<in> set e. fst a < fst x" by auto
  show ?case
  proof (cases "a = (k, v)")
    case True
    then show ?thesis by simp
  next
    case False
    with Cons.prems(2) have mem: "(k, v) \<in> set e" by simp
    with above have "fst a < k" by fastforce
    then have "\<not> k \<le> fst a" by simp
    then show ?thesis using Cons.IH[OF tail mem] by simp
  qed
qed

lemma gen_next_takewhile_cons:
  "pr x \<Longrightarrow> gen_next (takewhile (Some pr) (gen_cons x g)) = Inr (Some x)"
  by (simp add: gen_next_def takewhile_def gen_cons_def)

lemma gen_next_takewhile_stop:
  "\<not> pr x \<Longrightarrow> gen_next (takewhile (Some pr) (gen_cons x g)) = Inr None"
  by (simp add: gen_next_def takewhile_def gen_cons_def)

lemma gen_next_takewhile_empty:
  "gen_next (takewhile (Some pr) ([], None)) = Inr None"
  by (simp add: gen_next_def takewhile_def)


lemma coll_iter_get:
  "key \<noteq> [] \<Longrightarrow>
   coll_iter c coll st txn None (Some key) (Some key) False None True None
     = Inr (takewhile (Some (key_pred (\<lambda>k. key \<ge> k)))
             (logical_iter c (c_prefix coll) st
                (h_iter (txn_or_engine txn) (packs c (c_prefix coll) [key]) False st) False))"
  by (simp add: coll_iter_def truthy_def Let_def islice_def dropwhile_def)

lemma logical_iter_found:
  assumes keys: "keys_ok c" and d: "decompress st v = Inr d"
  shows "logical_iter c p st ((packs c p [key], v) # rest) False
           = gen_cons (False, key, d) (logical_loop c p st False rest)"
proof -
  have u: "unpacks c p (packs c p [key]) = [key]" by (rule unpacks_packs[OF keys]) simp
  have pre: "take (length p) (packs c p [key]) = p" by (simp add: packs_def)
  show ?thesis by (simp add: logical_iter_def pre u d)
qed

lemma logical_loop_no_prefix:
  "\<not> has_prefix p (fst e) \<Longrightarrow> logical_loop c p st reverse (e # rest) = ([], None)"
  by (cases e) (simp add: unpacks_def has_prefix_def)

lemma logical_iter_missing:
  assumes keys: "keys_ok c" and mono: "keys_mono c"
    and sorted: "sorted_wrt (<) (map fst (it::kv))"
    and above: "\<forall>x \<in> set it. packs c p [key] < fst x"
    and wf: "\<forall>x \<in> set it. has_prefix p (fst x) \<longrightarrow> single_record c p st x"
  shows "gen_next (takewhile (Some (key_pred (\<lambda>k. key \<ge> k))) (logical_iter c p st it False))
           = Inr None"
proof (cases it)
  case Nil
  then show ?thesis by (simp add: logical_iter_def gen_next_takewhile_empty)
next
  case (Cons e1 rest)
  obtain k1 v1 where e1: "e1 = (k1, v1)" by (cases e1)
  show ?thesis
  proof (cases "has_prefix p k1")
    case True
    with wf have sr: "single_record c p st (k1, v1)" by (simp add: Cons e1)
    then obtain t where t: "unpacks c p k1 = [t]"
      unfolding single_record_def by (cases "unpacks c p k1") auto
    from sr have k1: "k1 = packs c p [t]" unfolding single_record_def by (simp add: t)
    from sr obtain d where d: "decompress st v1 = Inr d"
      unfolding single_record_def by (auto split: sum.splits)
    from above have lt: "packs c p [key] < packs c p [t]" by (simp add: Cons e1 k1[symmetric])
    have "\<not> key \<ge> t"
    proof
      assume "t \<le> key"
      then consider "t = key" | "t < key" by (auto simp: le_less)
      then show False
      proof cases
        case 1
        with lt show False by simp
      next
        case 2
        with mono have "enc_keys c [t] < enc_keys c [key]" unfolding keys_mono_def by blast
        then have "packs c p [t] < packs c p [key]"
          unfolding packs_def list_less_def by (simp add: lexord_append_leftI)
        with lt show False by simp
      qed
    qed
    then have np: "\<not> key_pred (\<lambda>k. key \<ge> k) (False, t, d)" by (simp add: key_pred_def)
    have pre: "take (length p) k1 = p" using True by (simp add: has_prefix_def)
    have li: "logical_iter c p st it False
                = gen_cons (False, t, d) (logical_loop c p st False rest)"
      by (simp add: logical_iter_def Cons e1 pre t d)
    show ?thesis unfolding li
      using np by (rule gen_next_takewhile_stop[where pr = "key_pred (\<lambda>k. key \<ge> k)"])
  next
    case False
    then have pre: "take (length p) k1 \<noteq> p" by (simp add: has_prefix_def)
    have li: "logical_iter c p st it False = logical_loop c p st False rest"
      by (simp add: logical_iter_def Cons e1 pre)
    have "logical_loop c p st False rest = ([], None)"
    proof (cases rest)
      case Nil
      then show ?thesis by simp
    next
      case (Cons e2 rest')
      have "\<not> has_prefix p (fst e2)"
      proof
        assume h2: "has_prefix p (fst e2)"
        from above have a1: "packs c p [key] \<le> k1" by (simp add: \<open>it = e1 # rest\<close> e1 less_imp_le)
        from sorted have a2: "k1 \<le> fst e2"
          by (simp add: \<open>it = e1 # rest\<close> e1 Cons less_imp_le)
        have "has_prefix p k1"
          using has_prefix_packs h2 a1 a2 by (rule has_prefix_between)
        with False show False by simp
      qed
      then show ?thesis unfolding Cons by (rule logical_loop_no_prefix)
    qed
    then show ?thesis unfolding li by (simp add: gen_next_takewhile_empty)
  qed
qed


lemma sorted_filter_fst:
  "sorted_wrt (<) (map fst (e::kv)) \<Longrightarrow> sorted_wrt (<) (map fst (filter q e))"
  by (induction e) auto

lemma coll_get_spec:
  assumes keys: "keys_ok c" and mono: "keys_mono c"
    and wf: "coll_wf c (c_prefix coll) st (h_kv (txn_or_engine txn) st)"
    and key: "key \<noteq> []"
  shows "coll_get c coll key dflt rec txn st
           = Inr (case stored c (c_prefix coll) st (h_kv (txn_or_engine txn) st) key of
                    Some d \<Rightarrow> Some (found_result c coll key rec d)
                  | None \<Rightarrow> default_result coll rec dflt)"
proof -
  define e where "e = h_kv (txn_or_engine txn) st"
  define p where "p = c_prefix coll"
  define K where "K = packs c p [key]"
  define it where "it = filter (\<lambda>x. K \<le> fst x) e"
  from wf have sorted: "sorted_wrt (<) (map fst e)"
    and rec_wf: "\<forall>x \<in> set e. has_prefix p (fst x) \<longrightarrow> single_record c p st x"
    unfolding coll_wf_def e_def p_def by auto
  have hit: "h_iter (txn_or_engine txn) K False st = it"
    by (simp add: h_iter_def kv_iter_def it_def e_def)
  have ci: "coll_iter c coll st txn None (Some key) (Some key) False None True None
              = Inr (takewhile (Some (key_pred (\<lambda>k. key \<ge> k))) (logical_iter c p st it False))"
    unfolding coll_iter_get[OF key] p_def[symmetric] K_def[symmetric] hit ..
  show ?thesis
  proof (cases "map_of e K")
    case None
    then have nk: "K \<notin> fst ` set e" by (simp add: map_of_eq_None_iff)
    have s: "sorted_wrt (<) (map fst it)" unfolding it_def by (rule sorted_filter_fst[OF sorted])
    have above: "\<forall>x \<in> set it. packs c p [key] < fst x"
    proof
      fix x assume x: "x \<in> set it"
      then have "K \<le> fst x" and "x \<in> set e" by (auto simp: it_def)
      with nk have "K \<noteq> fst x" by force
      with \<open>K \<le> fst x\<close> show "packs c p [key] < fst x" by (simp add: K_def)
    qed
    have w: "\<forall>x \<in> set it. has_prefix p (fst x) \<longrightarrow> single_record c p st x"
      using rec_wf by (simp add: it_def)
    have gn: "gen_next (takewhile (Some (key_pred (\<lambda>k. key \<ge> k))) (logical_iter c p st it False))
                = Inr None"
      by (rule logical_iter_missing[OF keys mono s above w])
    have st: "stored c (c_prefix coll) st (h_kv (txn_or_engine txn) st) key = None"
      using None by (simp add: stored_def e_def K_def p_def)
    show ?thesis
      by (simp add: coll_get_def ci gn st default_result_def split: option.splits)
  next
    case (Some v)
    with sorted have mem: "(K, v) \<in> set e" by (simp add: sorted_map_of_mem)
    have "has_prefix p (fst (K, v))" by (simp add: K_def has_prefix_packs)
    with rec_wf mem have "single_record c p st (K, v)" by blast
    then obtain d where d: "decompress st v = Inr d"
      unfolding single_record_def by (auto split: sum.splits)
    obtain rest where rest: "it = (K, v) # rest"
      unfolding it_def using filter_ge_found[OF sorted mem] by blast
    have li: "logical_iter c p st it False
                = gen_cons (False, key, d) (logical_loop c p st False rest)"
      unfolding rest K_def by (rule logical_iter_found[OF keys d])
    have pr: "key_pred (\<lambda>k. key \<ge> k) (False, key, d)" by (simp add: key_pred_def)
    have gn: "gen_next (takewhile (Some (key_pred (\<lambda>k. key \<ge> k))) (logical_iter c p st it False))
                = Inr (Some (False, key, d))"
      unfolding li using pr
      by (rule gen_next_takewhile_cons[where pr = "key_pred (\<lambda>k. key \<ge> k)"])
    have st: "stored c (c_prefix coll) st (h_kv (txn_or_engine txn) st) key = Some d"
      using Some d by (simp add: stored_def e_def K_def p_def)
    show ?thesis
      by (simp add: coll_get_def ci gn st found_result_def Let_def)
  qed
qed


section \<open>Counters\<close>

lemma counter_put:
  assumes reg: "encoder_prefix st ''plain'' = Some [b]"
    and k: "r_key r = None \<or> r_key r = Some [prim_str c name]"
    and ik: "r_key r \<noteq> None \<longrightarrow> r_index_keys r = Some []"
    and b: "\<not> r_batch r"
  shows "\<exists>r'. put_with add_enc c (counter_coll c st) (PutRecord (r\<lparr>r_data := (name, v)\<rparr>)) txn
           None None False st
         = (Inr r', h_put (txn_or_engine txn)
                     (packs c (c_prefix (counter_coll c st)) [[prim_str c name]])
                     ([b] @ key_enc c (name, v)) st)"
  using reg k ik b
  by (auto simp add: put_with_def bind_def reassign_key_def truthy_def index_keys_def
      packer_prefix_of_def counter_coll_def meta_coll_def KEY_ENCODER_def PLAIN_PACKER_def
      Let_def)

lemma count_step:
  assumes keys: "keys_ok c" and mono: "keys_mono c"
    and wf: "coll_wf c (c_prefix (counter_coll c st)) st (h_kv (txn_or_engine txn) st)"
    and reg: "encoder_prefix st ''plain'' = Some [b]"
  shows "store_count c name n init txn st
           = (Inr (case counter_value c st (txn_or_engine txn) name of None \<Rightarrow> init | Some v \<Rightarrow> v),
              if n = 0 then st
              else h_put (txn_or_engine txn)
                     (packs c (c_prefix (counter_coll c st)) [[prim_str c name]])
                     ([b] @ key_enc c (name,
                        (case counter_value c st (txn_or_engine txn) name of
                           None \<Rightarrow> init | Some v \<Rightarrow> v) + n))
                     st)"
proof -
  define cur where
    "cur = (case counter_value c st (txn_or_engine txn) name of None \<Rightarrow> init | Some v \<Rightarrow> v)"
  have key: "[prim_str c name] \<noteq> []" by simp
  note g = coll_get_spec[OF keys mono wf key, of "Some (name, init)" True]
  have "\<exists>r. coll_get c (counter_coll c st) [prim_str c name] (Some (name, init)) True txn st
               = Inr (Some (Rec r))
           \<and> snd (r_data r) = cur
           \<and> (r_key r = None \<or> r_key r = Some [prim_str c name])
           \<and> (r_key r \<noteq> None \<longrightarrow> r_index_keys r = Some []) \<and> \<not> r_batch r"
  proof (cases "stored c (c_prefix (counter_coll c st)) st (h_kv (txn_or_engine txn) st)
                  [prim_str c name]")
    case None
    then have cv: "cur = init" by (simp add: counter_value_def cur_def)
    show ?thesis
      by (simp add: g None cv default_result_def Record_def)
  next
    case (Some d)
    then have cv: "cur = snd (e_unpack (c_encoder (counter_coll c st)) d)"
      by (simp add: counter_value_def cur_def counter_coll_def meta_coll_def KEY_ENCODER_def)
    have ix: "index_keys c (counter_coll c st) k x = []" for k x
      by (simp add: index_keys_def counter_coll_def meta_coll_def)
    show ?thesis
      by (simp add: g Some cv found_result_def ix)
  qed
  then obtain r where get: "coll_get c (counter_coll c st) [prim_str c name] (Some (name, init))
                              True txn st = Inr (Some (Rec r))"
    and val: "snd (r_data r) = cur"
    and k: "r_key r = None \<or> r_key r = Some [prim_str c name]"
    and ik: "r_key r \<noteq> None \<longrightarrow> r_index_keys r = Some []" and nb: "\<not> r_batch r"
    by blast
  obtain r' where put: "put_with (add_encoder c) c (counter_coll c st)
                          (PutRecord (r\<lparr>r_data := (name, cur + n)\<rparr>)) txn None None False st
         = (Inr r', h_put (txn_or_engine txn)
                     (packs c (c_prefix (counter_coll c st)) [[prim_str c name]])
                     ([b] @ key_enc c (name, cur + n)) st)"
    using counter_put[OF reg k ik nb] by blast
  show ?thesis
    unfolding cur_def[symmetric]
    by (simp add: store_count_def count_with_def get val put Let_def)
qed

lemma h_kv_h_put: "h_kv h (h_put h k v st) = kv_put k v (h_kv h st)"
  by (cases h) (simp_all add: h_kv_def h_put_def)

lemma s_prefix_h_put: "s_prefix (h_put h k v st) = s_prefix st"
  by (cases h) (simp_all add: h_put_def)

lemma encoder_prefix_h_put: "encoder_prefix (h_put h k v st) = encoder_prefix st"
  by (cases h) (simp_all add: h_put_def)

lemma journal_h_put: "journal (h_put h k v st) = journal st @ [Put h k v]"
  by (cases h) (simp_all add: h_put_def)

lemma get_encoder_cong:
  "prefix_encoder st' = prefix_encoder st \<Longrightarrow> get_encoder st' p = get_encoder st p"
  by (simp add: get_encoder_def)

lemma decompress_cong:
  assumes "prefix_encoder st' = prefix_encoder st"
  shows "decompress st' s = decompress st s"
  unfolding decompress_def get_encoder_cong[OF assms] ..

lemma single_record_cong:
  assumes "prefix_encoder st' = prefix_encoder st"
  shows "single_record c p st' x = single_record c p st x"
  unfolding single_record_def decompress_cong[OF assms] ..

lemma counter_coll_h_put: "counter_coll c (h_put h k v st) = counter_coll c st"
  by (simp add: counter_coll_def meta_coll_def s_prefix_h_put)

lemma coll_wf_put:
  assumes keys: "keys_ok c" and wf: "coll_wf c p st (h_kv h st)"
    and d: "decompress st v = Inr d"
  shows "coll_wf c p (h_put h (packs c p [key]) v st) (h_kv h (h_put h (packs c p [key]) v st))"
proof -
  let ?st' = "h_put h (packs c p [key]) v st"
  have pe: "prefix_encoder ?st' = prefix_encoder st" by (rule prefix_encoder_h_put)
  have u: "unpacks c p (packs c p [key]) = [key]" by (rule unpacks_packs[OF keys]) simp
  have new: "single_record c p ?st' (packs c p [key], v)"
    by (simp add: single_record_def u decompress_cong[OF pe] d)
  from wf have sorted: "sorted_wrt (<) (map fst (h_kv h st))"
    and old: "\<forall>x \<in> set (h_kv h st). has_prefix p (fst x) \<longrightarrow> single_record c p st x"
    unfolding coll_wf_def by auto
  have s: "sorted_wrt (<) (map fst (kv_put (packs c p [key]) v (h_kv h st)))"
    by (rule kv_put_sorted[OF sorted])
  have "\<forall>x \<in> set (kv_put (packs c p [key]) v (h_kv h st)).
          has_prefix p (fst x) \<longrightarrow> single_record c p ?st' x"
  proof (intro ballI impI)
    fix x assume x: "x \<in> set (kv_put (packs c p [key]) v (h_kv h st))" and hp: "has_prefix p (fst x)"
    from x have "x = (packs c p [key], v) \<or> x \<in> set (h_kv h st)"
      using kv_put_set_subset by blast
    then show "single_record c p ?st' x"
    proof
      assume "x = (packs c p [key], v)"
      with new show ?thesis by simp
    next
      assume "x \<in> set (h_kv h st)"
      with old hp have "single_record c p st x" by blast
      then show ?thesis by (simp only: single_record_cong[OF pe])
    qed
  qed
  with s show ?thesis unfolding coll_wf_def h_kv_h_put by simp
qed

lemma stored_put_same:
  assumes d: "decompress st v = Inr d"
  shows "stored c p (h_put h (packs c p [key]) v st) (h_kv h (h_put h (packs c p [key]) v st)) key
           = Some d"
  by (simp add: stored_def h_kv_h_put kv_put_map_of_same
      decompress_cong[OF prefix_encoder_h_put] d)

lemma count_after:
  fixes c :: "'p codec" and name :: string and v :: int and h :: handle and b :: byte
    and st :: store
  assumes keys: "keys_ok c" and kd: "\<forall>x. key_dec c (key_enc c x) = x"
    and wf: "coll_wf c (c_prefix (counter_coll c st)) st (h_kv h st)"
    and pe: "prefix_encoder st [b] = Some (Packer PLAIN_PACKER)"
  defines "st' \<equiv> h_put h (packs c (c_prefix (counter_coll c st)) [[prim_str c name]])
                    ([b] @ key_enc c (name, v)) st"
  shows "counter_value c st' h name = Some v"
    and "coll_wf c (c_prefix (counter_coll c st')) st' (h_kv h st')"
proof -
  have d: "decompress st ([b] @ key_enc c (name, v)) = Inr (key_enc c (name, v))"
    using decompress_registered[OF pe] by (simp add: PLAIN_PACKER_def)
  have cc: "counter_coll c st' = counter_coll c st"
    unfolding st'_def by (rule counter_coll_h_put)
  show "counter_value c st' h name = Some v"
    unfolding counter_value_def cc unfolding st'_def
    by (simp only: stored_put_same[OF d]) (simp add: kd)
  show "coll_wf c (c_prefix (counter_coll c st')) st' (h_kv h st')"
    unfolding cc unfolding st'_def by (rule coll_wf_put[OF keys wf d])
qed

section \<open>The small codec meets the assumptions\<close>

lemma bytes_less_append_same: "ys < zs \<Longrightarrow> (xs::bytes) @ ys < xs @ zs"
  by (induction xs) simp_all

lemma toy_enc_prim_less_add:
  "toy_enc_prim x @ r1 < toy_enc_prim (Suc (x + k)) @ r2"
  by (induction x) (simp_all add: toy_enc_prim_def)

lemma toy_enc_prim_less:
  assumes "x < y"
  shows "toy_enc_prim x @ r1 < toy_enc_prim y @ r2"
proof -
  from less_imp_Suc_add[OF assms] obtain k where y: "y = Suc (x + k)" by (rule exE)
  show ?thesis unfolding y by (rule toy_enc_prim_less_add)
qed

lemma toy_enc_key_less: "a < b \<Longrightarrow> toy_enc_key a < toy_enc_key b"
proof (induction a arbitrary: b)
  case Nil
  then obtain y ys where b: "b = y # ys" by (cases b) auto
  show ?case
    by (cases y) (simp_all add: b toy_enc_key_def toy_enc_prim_def)
next
  case (Cons x xs)
  then obtain y ys where b: "b = y # ys" by (cases b) auto
  from Cons.prems have "x < y \<or> x = y \<and> xs < ys" by (simp add: b)
  then show ?case
  proof
    assume "x < y"
    then have "toy_enc_prim x @ (concat (map toy_enc_prim xs) @ [0])
                 < toy_enc_prim y @ (concat (map toy_enc_prim ys) @ [0])"
      by (rule toy_enc_prim_less)
    then show ?thesis by (simp add: b toy_enc_key_def)
  next
    assume "x = y \<and> xs < ys"
    then have xy: "x = y" and "toy_enc_key xs < toy_enc_key ys" using Cons.IH by auto
    then have "toy_enc_prim y @ toy_enc_key xs < toy_enc_prim y @ toy_enc_key ys"
      by (intro bytes_less_append_same)
    then show ?thesis by (simp add: b xy toy_enc_key_def)
  qed
qed

lemma toy_keys_mono: "keys_mono toy_codec"
  unfolding keys_mono_def by (simp add: toy_codec_def toy_enc_keys_def toy_enc_key_less)

lemma toy_ints_go_ones: "toy_ints_go (replicate m 1 @ bs) k = toy_ints_go bs (k + m)"
  by (induction m arbitrary: k) simp_all

lemma toy_ints_go_unary: "toy_ints_go (toy_unary m @ bs) 0 = m # toy_ints_go bs 0"
  by (simp add: toy_unary_def toy_ints_go_ones)

lemma toy_ints_go_concat:
  "toy_ints_go (concat (map toy_unary ns) @ bs) 0 = ns @ toy_ints_go bs 0"
  by (induction ns) (simp_all add: toy_ints_go_unary)

lemma toy_key_roundtrip: "toy_key_dec (toy_key_enc x) = x"
proof -
  obtain s n where x: "x = (s, n)" by (cases x)
  define ns where "ns = map of_char s @ [if n < 0 then 1 else 0, nat \<bar>n\<bar>]"
  have go: "toy_ints_go (toy_key_enc (s, n)) 0 = ns"
    using toy_ints_go_concat[of ns "[]"] by (simp add: toy_key_enc_def ns_def)
  have len: "length ns = length s + 2" by (simp add: ns_def)
  have t: "take (length ns - 2) ns = map of_char s" by (simp add: ns_def)
  have s1: "ns ! (length ns - 2) = (if n < 0 then 1 else 0)"
    by (simp add: ns_def nth_append)
  have s2: "ns ! (length ns - 1) = nat \<bar>n\<bar>"
    by (simp add: ns_def nth_append)
  have ch: "map char_of (map (of_char :: char \<Rightarrow> nat) s) = s"
    by (simp add: comp_def)
  show ?thesis
    unfolding x toy_key_dec_def go Let_def t s1 s2 ch by auto
qed

lemma toy_key_ok: "\<forall>x. key_dec toy_codec (key_enc toy_codec x) = x"
  by (simp add: toy_codec_def toy_key_roundtrip)


section \<open>The counter contract\<close>


lemma count_calls_increasing:
  fixes c :: "'p::linorder codec"
  assumes keys: "keys_ok c" and mono: "keys_mono c" and kd: "\<forall>x. key_dec c (key_enc c x) = x"
  shows "coll_wf c (c_prefix (counter_coll c st)) st (h_kv (txn_or_engine txn) st) \<Longrightarrow>
         encoder_prefix st ''plain'' = Some [b] \<Longrightarrow>
         prefix_encoder st [b] = Some (Packer PLAIN_PACKER) \<Longrightarrow>
         \<forall>m \<in> set ns. 0 < m \<Longrightarrow>
         \<exists>vs st'. count_calls c name ns init txn st = (Inr vs, st')
            \<and> length vs = length ns \<and> sorted_wrt (<) vs
            \<and> (\<forall>v \<in> set vs.
                  (case counter_value c st (txn_or_engine txn) name of
                     None \<Rightarrow> init | Some v \<Rightarrow> v) \<le> v)"
proof (induction ns arbitrary: st)
  case Nil
  show ?case by simp
next
  case (Cons n ns)
  define h where "h = txn_or_engine txn"
  define cur where "cur = (case counter_value c st h name of None \<Rightarrow> init | Some v \<Rightarrow> v)"
  define st1 where
    "st1 = h_put h (packs c (c_prefix (counter_coll c st)) [[prim_str c name]])
             ([b] @ key_enc c (name, cur + n)) st"
  from Cons.prems(4) have n: "0 < n" and ns: "\<forall>m \<in> set ns. 0 < m" by simp_all
  have step: "store_count c name n init txn st = (Inr cur, st1)"
    using count_step[OF keys mono Cons.prems(1) Cons.prems(2), of name n init] n
    by (simp add: cur_def h_def st1_def)
  have cv1: "counter_value c st1 h name = Some (cur + n)"
    unfolding st1_def
    by (rule count_after(1)[OF keys kd Cons.prems(1)[folded h_def] Cons.prems(3)])
  have wf1: "coll_wf c (c_prefix (counter_coll c st1)) st1 (h_kv h st1)"
    unfolding st1_def
    by (rule count_after(2)[OF keys kd Cons.prems(1)[folded h_def] Cons.prems(3)])
  have reg1: "encoder_prefix st1 ''plain'' = Some [b]"
    unfolding st1_def by (simp only: encoder_prefix_h_put Cons.prems(2))
  have pe1: "prefix_encoder st1 [b] = Some (Packer PLAIN_PACKER)"
    unfolding st1_def by (simp only: prefix_encoder_h_put Cons.prems(3))
  from Cons.IH[OF wf1[unfolded h_def] reg1 pe1 ns]
  obtain vs st' where calls: "count_calls c name ns init txn st1 = (Inr vs, st')"
    and len: "length vs = length ns" and sorted: "sorted_wrt (<) vs"
    and lower: "\<forall>v \<in> set vs. cur + n \<le> v"
    unfolding h_def[symmetric] cv1 by auto
  have "count_calls c name (n # ns) init txn st = (Inr (cur # vs), st')"
    by (simp add: step calls)
  moreover have "sorted_wrt (<) (cur # vs)" using sorted lower n by auto
  moreover have "\<forall>v \<in> set (cur # vs). cur \<le> v" using lower n by auto
  ultimately show ?case
    unfolding h_def[symmetric] cur_def[symmetric] using len by auto
qed

text \<open>
  Claim C4.  \<open>Store.count(name, n, init)\<close> returns the counter's current value,
  which is \<open>init\<close> when the counter does not exist.  When \<open>n\<close> is not zero the
  call issues one write and the counter then holds the current value plus
  \<open>n\<close>; when \<open>n\<close> is zero the store is left as it was.  A sequence of calls
  with positive deltas returns a strictly increasing sequence of values.
\<close>

theorem count_contract:
  fixes c :: "'p::linorder codec"
  assumes keys: "keys_ok c" and mono: "keys_mono c" and kd: "\<forall>x. key_dec c (key_enc c x) = x"
    and wf: "coll_wf c (c_prefix (counter_coll c st)) st (h_kv (txn_or_engine txn) st)"
    and reg: "encoder_prefix st ''plain'' = Some [b]"
    and pe: "prefix_encoder st [b] = Some (Packer PLAIN_PACKER)"
  shows "\<exists>st'. store_count c name n init txn st
                = (Inr (case counter_value c st (txn_or_engine txn) name of
                          None \<Rightarrow> init | Some v \<Rightarrow> v), st')
           \<and> (n \<noteq> 0 \<longrightarrow>
                 counter_value c st' (txn_or_engine txn) name
                   = Some ((case counter_value c st (txn_or_engine txn) name of
                              None \<Rightarrow> init | Some v \<Rightarrow> v) + n)
                 \<and> length (journal st') = length (journal st) + 1)
           \<and> (n = 0 \<longrightarrow> st' = st)
           \<and> (\<forall>ns. (\<forall>m \<in> set ns. 0 < m) \<longrightarrow>
                 (\<exists>vs st''. count_calls c name ns init txn st = (Inr vs, st'')
                    \<and> length vs = length ns \<and> sorted_wrt (<) vs))"
proof -
  define h where "h = txn_or_engine txn"
  define cur where "cur = (case counter_value c st h name of None \<Rightarrow> init | Some v \<Rightarrow> v)"
  define st1 where
    "st1 = h_put h (packs c (c_prefix (counter_coll c st)) [[prim_str c name]])
             ([b] @ key_enc c (name, cur + n)) st"
  have step: "store_count c name n init txn st = (Inr cur, if n = 0 then st else st1)"
    using count_step[OF keys mono wf reg, of name n init]
    by (simp add: cur_def h_def st1_def)
  have cv1: "counter_value c st1 h name = Some (cur + n)"
    unfolding st1_def by (rule count_after(1)[OF keys kd wf[folded h_def] pe])
  have j1: "length (journal st1) = length (journal st) + 1"
    unfolding st1_def by (simp add: journal_h_put)
  have seq: "\<forall>ns. (\<forall>m \<in> set ns. 0 < m) \<longrightarrow>
                 (\<exists>vs st''. count_calls c name ns init txn st = (Inr vs, st'')
                    \<and> length vs = length ns \<and> sorted_wrt (<) vs)"
  proof (intro allI impI)
    fix ns :: "int list" assume "\<forall>m \<in> set ns. 0 < m"
    from count_calls_increasing[OF keys mono kd wf reg pe this, of name init]
    show "\<exists>vs st''. count_calls c name ns init txn st = (Inr vs, st'')
                    \<and> length vs = length ns \<and> sorted_wrt (<) vs" by blast
  qed
  show ?thesis
    unfolding h_def[symmetric] cur_def[symmetric]
    using step cv1 j1 seq[unfolded h_def[symmetric]] by (cases "n = 0") auto
qed


theorem count_contract_witness:
  "\<exists>st'. store_count toy_codec ''a'' 2 5 None (new_store toy_codec []) = (Inr 5, st')
     \<and> counter_value toy_codec st' Engine ''a'' = Some 7
     \<and> (\<exists>vs st''. count_calls toy_codec ''a'' [1, 2] 5 None (new_store toy_codec [])
                      = (Inr vs, st'')
           \<and> length vs = 2 \<and> sorted_wrt (<) vs)"
proof -
  have wf: "coll_wf toy_codec (c_prefix (counter_coll toy_codec (new_store toy_codec [])))
              (new_store toy_codec []) (h_kv (txn_or_engine None) (new_store toy_codec []))"
    by (simp add: coll_wf_def h_kv_def txn_or_engine_def new_store_def)
  have reg: "encoder_prefix (new_store toy_codec []) ''plain'' = Some [3]"
    by (simp add: new_store_def toy_codec_def toy_pack_int_def)
  have pe: "prefix_encoder (new_store toy_codec []) [3] = Some (Packer PLAIN_PACKER)"
    by (simp add: new_store_def toy_codec_def toy_pack_int_def)
  have cv: "counter_value toy_codec (new_store toy_codec []) (txn_or_engine None) ''a'' = None"
    by (simp add: counter_value_def stored_def h_kv_def txn_or_engine_def new_store_def)
  have pos: "\<forall>m \<in> set [1, 2 :: int]. 0 < m" by simp
  from count_contract[OF toy_keys_ok toy_keys_mono toy_key_ok wf reg pe, of "''a''" 2 5]
  obtain st' where
    1: "store_count toy_codec ''a'' 2 5 None (new_store toy_codec []) = (Inr 5, st')"
    and 2: "counter_value toy_codec st' (txn_or_engine None) ''a'' = Some 7"
    and 3: "\<forall>ns. (\<forall>m \<in> set ns. 0 < m) \<longrightarrow>
                 (\<exists>vs st''. count_calls toy_codec ''a'' ns 5 None (new_store toy_codec [])
                      = (Inr vs, st'')
                    \<and> length vs = length ns \<and> sorted_wrt (<) vs)"
    unfolding cv by auto
  from 3 pos have "\<exists>vs st''. count_calls toy_codec ''a'' [1, 2] 5 None (new_store toy_codec [])
                      = (Inr vs, st'')
                    \<and> length vs = length [1, 2 :: int] \<and> sorted_wrt (<) vs" by blast
  with 1 2 show ?thesis by (auto simp: txn_or_engine_def)
qed

end
